theory Spec2Isabelle
  imports Main
begin

section \<open>Data model\<close>

text \<open>
  The protocol client of \<^verbatim>\<open>modules/lib/core/base-client.ts\<close> and the subscriber
  registry \<^verbatim>\<open>EventEmitter\<close> it extends.

  JavaScript callbacks are objects with an identity: a listener of the event registry
  is a natural number (its identity), and calling it appends a line to the trace
  \<open>delivered\<close>. The listener stored in the correlation table by \<^verbatim>\<open>fetchApi\<close> is the
  closure \<^verbatim>\<open>data => { clearTimeout( timer ); resolve( data ); }\<close>; it is named by the
  serial number of the call that made it, which also names the call's timer and promise.

  The model follows the code on frames of the declared types (\<^verbatim>\<open>EventData\<close>,
  \<^verbatim>\<open>ActionResponse\<close>, \<^verbatim>\<open>ApiMap\<close>): on them no statement of the two classes throws.
  Calls of the logger change nothing that is modelled and are left out. A listener is
  opaque: what it does to the client itself (a call of \<^verbatim>\<open>fetchApi\<close>, \<^verbatim>\<open>on\<close> or
  \<^verbatim>\<open>off\<close>) is a separate event of a run, after the \<^verbatim>\<open>emit\<close> that called it.
\<close>

text \<open>\<^verbatim>\<open>ActionResponse\<close>: the frame that answers a request. \<open>rdata\<close> is the \<^verbatim>\<open>data\<close>
  member (\<open>None\<close> for \<^verbatim>\<open>null\<close>), \<open>echo\<close> is \<open>None\<close> when the member is missing.\<close>

record ActionResponse =
  retcode :: int
  status :: string
  rdata :: "string option"
  msg :: string
  wording :: string
  echo :: "string option"

text \<open>A message element, as far as the dispatcher reads it: \<open>el_type\<close> is
  \<^verbatim>\<open>el.type\<close> and \<open>el_qq\<close> is what \<^verbatim>\<open>Number.parseInt( el.data.qq )\<close> yields
  (\<open>None\<close> for \<^verbatim>\<open>NaN\<close>).\<close>

record MessageElem =
  el_type :: string
  el_qq :: "int option"

datatype message_field = MsgString string | MsgElems "MessageElem list"

text \<open>The closures the dispatcher hangs on a payload. Each stands for the arrow
  function of the source that calls \<^verbatim>\<open>quickOperation\<close> with the named members:
  \<^item> \<open>ReplyPrivate\<close>: \<^verbatim>\<open>( content ) => quickOperation( { reply } )\<close>
  \<^item> \<open>ReplyGroup\<close>: \<^verbatim>\<open>( content, at = true ) => quickOperation( { reply, at_sender } )\<close>
  \<^item> \<open>RecallOp\<close>: \<^verbatim>\<open>() => quickOperation( { delete: true } )\<close>
  \<^item> \<open>KickOp\<close>: \<^verbatim>\<open>() => quickOperation( { kick: true } )\<close>
  \<^item> \<open>BanOp\<close>: \<^verbatim>\<open>( duration ) => quickOperation( { ban: true, ban_duration } )\<close>
  \<^item> \<open>ApproveRemark\<close>, \<open>ApproveReason\<close>: the two \<^verbatim>\<open>approve\<close> closures of requests.\<close>

datatype closure =
  ReplyPrivate | ReplyGroup | RecallOp | KickOp | BanOp | ApproveRemark | ApproveReason

text \<open>\<^verbatim>\<open>EventData\<close>: a parsed event frame, with the members the dispatcher branches on
  and the members it writes. \<open>has_echo\<close> is \<^verbatim>\<open>Reflect.has( data, "echo" )\<close>;
  \<open>status_online\<close> is \<^verbatim>\<open>data.status.online\<close>; a member that is missing from the
  frame is the empty string, which equals none of the literals it is compared with.\<close>

record EventData =
  has_echo :: bool
  post_type :: string
  meta_event_type :: string
  status_online :: bool
  sub_type :: string
  message :: message_field
  raw_message :: string
  notice_type :: string
  request_type :: string
  user_id :: int
  group_id :: int
  atMe :: "bool option"
  reply :: "closure option"
  recall :: "closure option"
  kick :: "closure option"
  ban :: "closure option"
  approve :: "closure option"

text \<open>What \<^verbatim>\<open>emit\<close> passes to the listeners: an event frame, or \<^verbatim>\<open>null\<close>.\<close>

datatype payload = Null | Event EventData

text \<open>The \<^verbatim>\<open>params\<close> of a request: \<^verbatim>\<open>undefined\<close>, or an object (opaque here).\<close>

datatype api_params = Undefined | Params string

record ActionRequest =
  action :: string
  params :: api_params
  req_echo :: string

text \<open>What the client asks of its two socket wrappers (\<^verbatim>\<open>WsMessage\<close>, not part of the
  sources at hand), in order. \<open>EventWs\<close> and \<open>ApiWs\<close> name the two wrapper objects.\<close>

datatype ws_name = EventWs | ApiWs

datatype wire_op =
  Connect ws_name string | CloseConnect ws_name | SendMessage ws_name ActionRequest

text \<open>An entry of \<^verbatim>\<open>eventMap\<close> (\<^verbatim>\<open>EventMapListener\<close>).\<close>

record EventMapListener =
  listener :: nat
  once_flag :: bool

text \<open>A live timer of \<^verbatim>\<open>setTimeout\<close>: its handle, the instant it is due, and the two
  variables its callback closes over.\<close>

record timer =
  tid :: nat
  due :: nat
  t_echo :: string
  t_action :: string

text \<open>
  The client. Beside the fields of the class, the state holds the runtime the code runs
  on and the traces the properties are about:
  \<^item> \<open>shared_ws\<close>: the constructor made one wrapper serve both roles;
  \<^item> \<open>now\<close>, \<open>timers\<close>: the clock in milliseconds and the live timers;
  \<^item> \<open>idgen\<close>: the identifier that
    \<^verbatim>\<open>Date.now().toString( 36 ) + getRandomString( 6 )\<close> yields in the n-th call of
    \<^verbatim>\<open>fetchApi\<close>. \<^verbatim>\<open>getRandomString\<close> is not part of the sources at hand, so the
    identifiers are whatever the clock and the random source make them; the specification
    sizes them so that no two pending calls share one, and a property that rests on this
    says so in a hypothesis;
  \<^item> \<open>calls\<close>: the action of every call of \<^verbatim>\<open>fetchApi\<close> so far; the n-th call owns
    promise n, timer n and correlation listener n;
  \<^item> \<open>resolved\<close>: every call of a promise's \<^verbatim>\<open>resolve\<close>, with its value;
  \<^item> \<open>wire\<close>: every operation asked of a socket wrapper;
  \<^item> \<open>published\<close>: every call of \<^verbatim>\<open>emit\<close>; \<open>delivered\<close>: every call of a listener.
\<close>

record BaseClient =
  eventTarget :: string
  apiTarget :: string
  fetchTimeout :: int
  shared_ws :: bool
  uin :: int
  online :: bool
  eventMap :: "string \<rightharpoonup> EventMapListener list"
  apiMap :: "string \<rightharpoonup> nat list"
  now :: nat
  timers :: "timer list"
  idgen :: "nat \<Rightarrow> string"
  calls :: "string list"
  resolved :: "(nat \<times> ActionResponse) list"
  wire :: "wire_op list"
  published :: "(string \<times> payload) list"
  delivered :: "(string \<times> nat \<times> payload) list"

section \<open>EventEmitter\<close>

definition onHandle :: "string \<Rightarrow> nat \<Rightarrow> bool \<Rightarrow> BaseClient \<Rightarrow> BaseClient" where
  "onHandle event l once s =
     (case eventMap s event of
        Some listeners \<Rightarrow>
          s\<lparr>eventMap := (eventMap s)(event \<mapsto> listeners @ [\<lparr>listener = l, once_flag = once\<rparr>])\<rparr>
      | None \<Rightarrow>
          s\<lparr>eventMap := (eventMap s)(event \<mapsto> [\<lparr>listener = l, once_flag = once\<rparr>])\<rparr>)"

definition onApi :: "string \<Rightarrow> nat \<Rightarrow> BaseClient \<Rightarrow> BaseClient" where
  "onApi event l s =
     (case apiMap s event of
        Some listeners \<Rightarrow> s\<lparr>apiMap := (apiMap s)(event \<mapsto> listeners @ [l])\<rparr>
      | None \<Rightarrow> s\<lparr>apiMap := (apiMap s)(event \<mapsto> [l])\<rparr>)"

text \<open>The correlation listener of call \<open>c\<close>:
  \<^verbatim>\<open>data => { clearTimeout( timer ); resolve( data ); }\<close>.\<close>

definition api_listener :: "ActionResponse \<Rightarrow> nat \<Rightarrow> BaseClient \<Rightarrow> BaseClient" where
  "api_listener d c s =
     s\<lparr>timers := filter (\<lambda>t. tid t \<noteq> c) (timers s), resolved := resolved s @ [(c, d)]\<rparr>"

text \<open>\<^verbatim>\<open>emitApi\<close> runs over a copy of the list (\<^verbatim>\<open>listeners.slice()\<close>), then deletes
  the entry.\<close>

definition emitApi :: "string \<Rightarrow> ActionResponse \<Rightarrow> BaseClient \<Rightarrow> BaseClient" where
  "emitApi event d s =
     (let listeners = (case apiMap s event of Some ls \<Rightarrow> ls | None \<Rightarrow> []);
          s' = fold (api_listener d) listeners s
      in s'\<lparr>apiMap := (apiMap s')(event := None)\<rparr>)"

definition on :: "string \<Rightarrow> nat \<Rightarrow> BaseClient \<Rightarrow> BaseClient" where
  "on event l s = onHandle event l False s"

definition once :: "string \<Rightarrow> nat \<Rightarrow> BaseClient \<Rightarrow> BaseClient" where
  "once event l s = onHandle event l True s"

text \<open>\<^verbatim>\<open>findIndex\<close>: the first index whose element satisfies the test, \<open>None\<close> for -1.\<close>

fun findIndex :: "('a \<Rightarrow> bool) \<Rightarrow> 'a list \<Rightarrow> nat option" where
  "findIndex P [] = None"
| "findIndex P (x # xs) =
     (if P x then Some 0 else (case findIndex P xs of None \<Rightarrow> None | Some i \<Rightarrow> Some (Suc i)))"

text \<open>\<^verbatim>\<open>listeners.splice( index, 1 )\<close>.\<close>

definition splice1 :: "nat \<Rightarrow> 'a list \<Rightarrow> 'a list" where
  "splice1 i xs = take i xs @ drop (Suc i) xs"

definition off :: "string \<Rightarrow> nat \<Rightarrow> BaseClient \<Rightarrow> BaseClient" where
  "off event l s =
     (case eventMap s event of
        Some listeners \<Rightarrow>
          (case findIndex (\<lambda>item. listener item = l) listeners of
             Some index \<Rightarrow> s\<lparr>eventMap := (eventMap s)(event \<mapsto> splice1 index listeners)\<rparr>
           | None \<Rightarrow> s)
      | None \<Rightarrow> s)"

text \<open>One call of a listener by \<^verbatim>\<open>emit\<close>.\<close>

definition invoke :: "string \<Rightarrow> payload \<Rightarrow> nat \<Rightarrow> BaseClient \<Rightarrow> BaseClient" where
  "invoke event p l s = s\<lparr>delivered := delivered s @ [(event, l, p)]\<rparr>"

text \<open>
  \<^verbatim>\<open>listeners.forEach( item => { item.listener( ...data ); if ( item.once ) this.off( event, item.listener ); } )\<close>
  on the array that is stored in the map, which \<^verbatim>\<open>off\<close> splices in place.
  \<^verbatim>\<open>Array.prototype.forEach\<close> reads the length once, then visits the indices
  \<open>0, 1, ...\<close> below it, reading the array as it is at that moment and passing over an
  index the array no longer has. \<open>emit_loop n k\<close> is the loop at index \<open>k\<close> with \<open>n\<close>
  indices still to visit.
\<close>

fun emit_loop :: "nat \<Rightarrow> nat \<Rightarrow> string \<Rightarrow> payload \<Rightarrow> BaseClient \<Rightarrow> BaseClient" where
  "emit_loop 0 k event p s = s"
| "emit_loop (Suc n) k event p s =
     (case eventMap s event of
        None \<Rightarrow> s
      | Some listeners \<Rightarrow>
          if k < length listeners then
            let item = listeners ! k;
                s1 = invoke event p (listener item) s;
                s2 = (if once_flag item then off event (listener item) s1 else s1)
            in emit_loop n (Suc k) event p s2
          else emit_loop n (Suc k) event p s)"

definition emit :: "string \<Rightarrow> payload \<Rightarrow> BaseClient \<Rightarrow> BaseClient" where
  "emit event p s =
     (let s0 = s\<lparr>published := published s @ [(event, p)]\<rparr>
      in case eventMap s event of
           None \<Rightarrow> s0
         | Some listeners \<Rightarrow> emit_loop (length listeners) 0 event p s0)"

definition checkNoticePrivateEvent :: "EventData \<Rightarrow> bool" where
  "checkNoticePrivateEvent d = (notice_type d \<in> set [''friend_add'', ''friend_recall''])"

section \<open>BaseClient\<close>

text \<open>\<^verbatim>\<open>needApiConnect\<close>: \<^verbatim>\<open>this.apiTarget && this.apiTarget !== this.eventTarget\<close>.\<close>

definition needApiConnect :: "BaseClient \<Rightarrow> bool" where
  "needApiConnect s = (apiTarget s \<noteq> [] \<and> apiTarget s \<noteq> eventTarget s)"

text \<open>The constructor. \<open>gen\<close> is the identifier source of the run.\<close>

definition new_client :: "string \<Rightarrow> string \<Rightarrow> int \<Rightarrow> (nat \<Rightarrow> string) \<Rightarrow> BaseClient" where
  "new_client et at ft gen =
     \<lparr>eventTarget = et, apiTarget = at, fetchTimeout = ft,
      shared_ws = \<not> (at \<noteq> [] \<and> at \<noteq> et),
      uin = 0, online = False, eventMap = Map.empty, apiMap = Map.empty,
      now = 0, timers = [], idgen = gen, calls = [], resolved = [], wire = [],
      published = [], delivered = []\<rparr>"

definition setFetchTimeout :: "int \<Rightarrow> BaseClient \<Rightarrow> BaseClient" where
  "setFetchTimeout ft s = s\<lparr>fetchTimeout := ft\<rparr>"

definition setTarget :: "string \<Rightarrow> string \<Rightarrow> BaseClient \<Rightarrow> BaseClient" where
  "setTarget et at s = s\<lparr>eventTarget := et, apiTarget := at\<rparr>"

text \<open>The wrapper object \<^verbatim>\<open>this.wsApi\<close> refers to.\<close>

definition wsApi :: "BaseClient \<Rightarrow> ws_name" where
  "wsApi s = (if shared_ws s then EventWs else ApiWs)"

definition sendMessage :: "ActionRequest \<Rightarrow> BaseClient \<Rightarrow> BaseClient" where
  "sendMessage d s = s\<lparr>wire := wire s @ [SendMessage (wsApi s) d]\<rparr>"

text \<open>\<^verbatim>\<open>connect\<close> asks the wrappers to open; the promise it returns polls them and is
  not part of this model.\<close>

definition connect :: "BaseClient \<Rightarrow> BaseClient" where
  "connect s =
     (let s1 = s\<lparr>wire := wire s @ [Connect EventWs (''ws://'' @ eventTarget s)]\<rparr>
      in if needApiConnect s1
         then s1\<lparr>wire := wire s1 @ [Connect (wsApi s1) (''ws://'' @ apiTarget s1)]\<rparr>
         else s1)"

definition closeConnect :: "BaseClient \<Rightarrow> BaseClient" where
  "closeConnect s =
     (let s1 = s\<lparr>wire := wire s @ [CloseConnect EventWs]\<rparr>
      in if needApiConnect s1 then s1\<lparr>wire := wire s1 @ [CloseConnect (wsApi s1)]\<rparr> else s1)"

definition reConnect :: "BaseClient \<Rightarrow> BaseClient" where
  "reConnect s = connect (closeConnect s)"

text \<open>The two synthetic responses. The \<^verbatim>\<open>wording\<close> members are Chinese text, given
  here as their UTF-8 bytes.\<close>

definition wording_not_login :: string where
  "wording_not_login =
     [CHR 0xE6, CHR 0x9C, CHR 0xAA, CHR 0xE7, CHR 0x99, CHR 0xBB, CHR 0xE5, CHR 0xBD, CHR 0x95]"

definition wording_timeout :: string where
  "wording_timeout =
     [CHR 0xE8, CHR 0xAF, CHR 0xB7, CHR 0xE6, CHR 0xB1, CHR 0x82, CHR 0xE8, CHR 0xB6, CHR 0x85,
      CHR 0xE6, CHR 0x97, CHR 0xB6]"

definition not_login_response :: "string \<Rightarrow> ActionResponse" where
  "not_login_response e =
     \<lparr>retcode = 401, status = ''failed'', rdata = None, msg = ''Not_Login'',
      wording = wording_not_login, echo = Some e\<rparr>"

definition timeout_response :: "string \<Rightarrow> string \<Rightarrow> ActionResponse" where
  "timeout_response act e =
     \<lparr>retcode = 408, status = ''failed'', rdata = None,
      msg = ''Action '' @ act @ '' Request_Timeout'',
      wording = ''Api '' @ act @ '' '' @ wording_timeout, echo = Some e\<rparr>"

text \<open>\<^verbatim>\<open>params || {}\<close>.\<close>

definition params_or_empty :: "api_params \<Rightarrow> api_params" where
  "params_or_empty p = (case p of Undefined \<Rightarrow> Params ''{}'' | Params x \<Rightarrow> Params x)"

text \<open>
  The delay \<^verbatim>\<open>setTimeout( callback, ms )\<close> waits, in milliseconds. The runtime keeps
  the delay in a signed 32-bit integer: a value below 1 or above 2147483647 is replaced
  by 1. \<^verbatim>\<open>fetchTimeout\<close> is a JavaScript number; its whole values are the integers.
\<close>

definition setTimeout_delay :: "int \<Rightarrow> nat" where
  "setTimeout_delay ms = (if ms < 1 \<or> 2147483647 < ms then 1 else nat ms)"

text \<open>
  \<^verbatim>\<open>fetchApi\<close> returns the promise (its number) and the new state. Offline, the promise
  is made by \<^verbatim>\<open>Promise.resolve\<close>. Online, the frame is sent, the timer is started by
  \<^verbatim>\<open>setTimeout\<close> with the value \<^verbatim>\<open>this.fetchTimeout\<close> has now, and the listener is
  registered under the identifier. \<^verbatim>\<open>printSendLogger\<close> only writes to the log.
\<close>

definition fetchApi :: "string \<Rightarrow> api_params \<Rightarrow> BaseClient \<Rightarrow> nat \<times> BaseClient" where
  "fetchApi act p s =
     (let c = length (calls s);
          e = idgen s c;
          s0 = s\<lparr>calls := calls s @ [act]\<rparr>
      in if \<not> online s0 then (c, s0\<lparr>resolved := resolved s0 @ [(c, not_login_response e)]\<rparr>)
         else
           let s1 = sendMessage \<lparr>action = act, params = params_or_empty p, req_echo = e\<rparr> s0;
               s2 = s1\<lparr>timers := timers s1 @
                      [\<lparr>tid = c, due = now s1 + setTimeout_delay (fetchTimeout s1), t_echo = e, t_action = act\<rparr>]\<rparr>
           in (c, onApi e c s2))"

text \<open>The three refresh helpers. Their \<^verbatim>\<open>then\<close> continuations write the version
  descriptor and the two directories, which nothing modelled here reads.\<close>

definition getVersionInfo :: "BaseClient \<Rightarrow> BaseClient" where
  "getVersionInfo s = snd (fetchApi ''get_version_info'' Undefined s)"

definition setGroupList :: "BaseClient \<Rightarrow> BaseClient" where
  "setGroupList s = snd (fetchApi ''get_group_list'' Undefined s)"

definition setFriendList :: "BaseClient \<Rightarrow> BaseClient" where
  "setFriendList s = snd (fetchApi ''get_friend_list'' Undefined s)"

subsection \<open>The handler of the API socket\<close>

text \<open>An inbound text frame: not JSON (\<^verbatim>\<open>isJsonString\<close> is false), or parsed.\<close>

datatype 'a inbound = NotJson | Json 'a

text \<open>\<^verbatim>\<open>!data.echo\<close> holds for a missing member and for the empty string.\<close>

definition on_api_message :: "ActionResponse inbound \<Rightarrow> BaseClient \<Rightarrow> BaseClient" where
  "on_api_message res s =
     (case res of
        NotJson \<Rightarrow> s
      | Json d \<Rightarrow>
          (case echo d of
             None \<Rightarrow> s
           | Some e \<Rightarrow>
               if e = [] then s
               else if retcode d = 1 then s
               else emitApi e d s))"

subsection \<open>The handlers of the event socket\<close>

definition meta_branch :: "EventData \<Rightarrow> BaseClient \<Rightarrow> BaseClient" where
  "meta_branch d s =
     (if post_type d = ''meta_event'' then
        let s1 = (if meta_event_type d = ''lifecycle''
                  then emit ''system.lifecycle'' (Event d) s else s);
            s2 = (if meta_event_type d = ''heartbeat'' then
                    if status_online d \<noteq> online s1 then
                      let s' = s1\<lparr>online := status_online d\<rparr>
                      in if online s'
                         then emit ''system.online'' (Event d)
                                (setFriendList (setGroupList (getVersionInfo s')))
                         else emit ''system.offline'' (Event d) s'
                    else s1
                  else s1)
        in emit ''system'' (Event d) s2
      else s)"

definition message_private :: "EventData \<Rightarrow> BaseClient \<Rightarrow> EventData \<times> BaseClient" where
  "message_private d s =
     (if sub_type d = ''friend'' \<or> sub_type d = ''group'' then
        let d' = d\<lparr>reply := Some ReplyPrivate\<rparr>;
            s1 = (if sub_type d' = ''friend'' then emit ''message.private.friend'' (Event d') s
                  else if sub_type d' = ''group'' then emit ''message.private.group'' (Event d') s
                  else s)
        in (d', emit ''message.private'' (Event d') s1)
      else (d, s))"

definition message_group :: "EventData \<Rightarrow> BaseClient \<Rightarrow> EventData \<times> BaseClient" where
  "message_group d s =
     (if sub_type d = ''normal'' \<or> sub_type d = ''anonymous'' then
        let d' = d\<lparr>reply := Some ReplyGroup, recall := Some RecallOp,
                   kick := Some KickOp, ban := Some BanOp\<rparr>;
            s1 = (if sub_type d' = ''normal'' then emit ''message.group.normal'' (Event d') s
                  else if sub_type d' = ''anonymous''
                  then emit ''message.group.anonymous'' (Event d') s
                  else s)
        in (d', emit ''message.group'' (Event d') s1)
      else (d, s))"

text \<open>\<open>toElems\<close> is \<^verbatim>\<open>toMessageRecepElem\<close>, which is not part of the sources at hand.\<close>

definition message_branch ::
  "(string \<Rightarrow> MessageElem list) \<Rightarrow> EventData \<Rightarrow> BaseClient \<Rightarrow> EventData \<times> BaseClient" where
  "message_branch toElems d s =
     (if post_type d = ''message'' then
        let d1 = (case message d of
                    MsgString m \<Rightarrow> d\<lparr>message := MsgElems (toElems m)\<rparr>
                  | MsgElems es \<Rightarrow> d);
            els = (case message d1 of MsgElems es \<Rightarrow> es | MsgString m \<Rightarrow> []);
            atMeEl = find (\<lambda>el. el_type el = ''at'' \<and> el_qq el = Some (uin s)) els;
            d2 = d1\<lparr>atMe := Some (atMeEl \<noteq> None)\<rparr>;
            (d3, s3) = message_private d2 s;
            (d4, s4) = message_group d3 s3
        in (d4, emit ''message'' (Event d4) s4)
      else (d, s))"

definition notice_private :: "EventData \<Rightarrow> BaseClient \<Rightarrow> BaseClient" where
  "notice_private d s =
     (if notice_type d = ''friend_add''
      then emit ''notice.friend.add'' (Event d) (setFriendList s)
      else if notice_type d = ''friend_recall'' then emit ''notice.friend.recall'' (Event d) s
      else s)"

definition notice_group_increase :: "EventData \<Rightarrow> BaseClient \<Rightarrow> BaseClient" where
  "notice_group_increase d s =
     (let s1 = emit ''notice.group.increase'' (Event d) s
      in if user_id d = uin s1
         then emit ''notice.group.increase'' (Event d) (setGroupList s1)
         else emit ''notice.group.member_increase'' (Event d) s1)"

definition notice_group_decrease :: "EventData \<Rightarrow> BaseClient \<Rightarrow> BaseClient" where
  "notice_group_decrease d s =
     (if sub_type d = ''kick_me'' \<or> user_id d = uin s
      then emit ''notice.group.decrease'' (Event d) (setGroupList s)
      else emit ''notice.group.member_decrease'' (Event d) s)"

definition notice_group_notify :: "EventData \<Rightarrow> BaseClient \<Rightarrow> BaseClient" where
  "notice_group_notify d s =
     (let s1 = (if sub_type d = ''lucky_king''
                then emit ''notice.group.lucky_king'' (Event d) s else s);
          s2 = (if sub_type d = ''honor'' then emit ''notice.group.honor'' (Event d) s1 else s1)
      in if sub_type d = ''poke'' then emit ''notice.group.poke'' (Event d) s2 else s2)"

definition notice_group :: "EventData \<Rightarrow> BaseClient \<Rightarrow> BaseClient" where
  "notice_group d s =
     (if notice_type d = ''group_recall'' then emit ''notice.group.recall'' (Event d) s
      else if notice_type d = ''group_increase'' then notice_group_increase d s
      else if notice_type d = ''group_decrease'' then notice_group_decrease d s
      else if notice_type d = ''group_admin'' then emit ''notice.group.admin'' (Event d) s
      else if notice_type d = ''group_upload'' then emit ''notice.group.upload'' (Event d) s
      else if notice_type d = ''group_ban'' then emit ''notice.group.ban'' (Event d) s
      else if notice_type d = ''notify'' then notice_group_notify d s
      else s)"

definition notice_branch :: "EventData \<Rightarrow> BaseClient \<Rightarrow> BaseClient" where
  "notice_branch d s =
     (if post_type d = ''notice'' then
        let s1 = (if checkNoticePrivateEvent d then notice_private d s
                  else emit ''notice.group'' (Event d) (notice_group d s))
        in emit ''notice'' (Event d) s1
      else s)"

definition request_branch :: "EventData \<Rightarrow> BaseClient \<Rightarrow> EventData \<times> BaseClient" where
  "request_branch d s =
     (if post_type d = ''request'' then
        let (d1, s1) =
              (if request_type d = ''friend''
               then (let d' = d\<lparr>approve := Some ApproveRemark\<rparr>
                     in (d', emit ''request.friend'' (Event d') s))
               else if request_type d = ''group''
               then (let d' = d\<lparr>approve := Some ApproveReason\<rparr>
                     in (d', emit ''request.group'' (Event d') s))
               else (d, s))
        in (d1, emit ''request'' (Event d1) s1)
      else (d, s))"

text \<open>The body of the message handler after the two early returns: the four
  \<^verbatim>\<open>if ( data.post_type === ... )\<close> blocks in their order, on the one object \<open>data\<close>.\<close>

definition dispatch ::
  "(string \<Rightarrow> MessageElem list) \<Rightarrow> EventData \<Rightarrow> BaseClient \<Rightarrow> EventData \<times> BaseClient" where
  "dispatch toElems d s =
     (let s1 = meta_branch d s;
          (d2, s2) = message_branch toElems d s1;
          s3 = notice_branch d2 s2
      in request_branch d2 s3)"

definition on_event_message ::
  "(string \<Rightarrow> MessageElem list) \<Rightarrow> EventData inbound \<Rightarrow> BaseClient \<Rightarrow> BaseClient" where
  "on_event_message toElems res s =
     (case res of
        NotJson \<Rightarrow> s
      | Json d \<Rightarrow> if has_echo d then s else snd (dispatch toElems d s))"

definition on_close :: "BaseClient \<Rightarrow> BaseClient" where
  "on_close s =
     (if online s then emit ''system.offline'' Null (s\<lparr>online := False\<rparr>) else s)"

section \<open>The runtime: timers and the clock\<close>

text \<open>A timer that fires runs its callback,
  \<^verbatim>\<open>() => { this.emitApi( echo, { retcode: 408, ... } ) }\<close>, and is gone.\<close>

definition fire :: "timer \<Rightarrow> BaseClient \<Rightarrow> BaseClient" where
  "fire tm s =
     emitApi (t_echo tm) (timeout_response (t_action tm) (t_echo tm))
       (s\<lparr>now := max (now s) (due tm), timers := filter (\<lambda>t. tid t \<noteq> tid tm) (timers s)\<rparr>)"

text \<open>The timer to run next: the one due first, the older one of two due together.\<close>

fun earliest :: "timer list \<Rightarrow> timer option" where
  "earliest [] = None"
| "earliest (x # xs) =
     (case earliest xs of
        None \<Rightarrow> Some x
      | Some y \<Rightarrow> if due x \<le> due y then Some x else Some y)"

definition next_due :: "nat \<Rightarrow> timer list \<Rightarrow> timer option" where
  "next_due t ts = earliest (filter (\<lambda>x. due x \<le> t) ts)"

text \<open>The clock reaches \<open>t\<close>: every timer due by then fires, in order. A callback starts
  no timer and each firing removes one, so \<open>length (timers s)\<close> rounds are enough
  (\<open>run_timers_done\<close> below).\<close>

fun run_timers :: "nat \<Rightarrow> nat \<Rightarrow> BaseClient \<Rightarrow> BaseClient" where
  "run_timers 0 t s = s"
| "run_timers (Suc n) t s =
     (case next_due t (timers s) of
        None \<Rightarrow> s
      | Some tm \<Rightarrow> run_timers n t (fire tm s))"

definition advance :: "nat \<Rightarrow> BaseClient \<Rightarrow> BaseClient" where
  "advance t s =
     (let s' = run_timers (length (timers s)) t s in s'\<lparr>now := max (now s') t\<rparr>)"

section \<open>Runs\<close>

text \<open>What can happen to a client: a frame on either socket, the event socket closing,
  the clock moving on, and a collaborator calling the public surface or writing the public
  field \<^verbatim>\<open>uin\<close>. On a shared socket every frame goes to the event handler and then to
  the API handler, that is, \<open>EventMessage\<close> then \<open>ApiMessage\<close>.\<close>

datatype env =
  ApiMessage "ActionResponse inbound"
| EventMessage "EventData inbound"
| SocketClose
| ClockReaches nat
| CallFetchApi string api_params
| CallSetFetchTimeout int
| CallSetTarget string string
| CallSendMessage ActionRequest
| CallSetGroupList
| CallSetFriendList
| CallConnect
| CallCloseConnect
| CallReConnect
| CallOn string nat
| CallOnce string nat
| CallOff string nat
| CallEmit string payload
| AssignUin int

fun step :: "(string \<Rightarrow> MessageElem list) \<Rightarrow> env \<Rightarrow> BaseClient \<Rightarrow> BaseClient" where
  "step cv (ApiMessage res) s = on_api_message res s"
| "step cv (EventMessage res) s = on_event_message cv res s"
| "step cv SocketClose s = on_close s"
| "step cv (ClockReaches t) s = advance t s"
| "step cv (CallFetchApi act p) s = snd (fetchApi act p s)"
| "step cv (CallSetFetchTimeout ft) s = setFetchTimeout ft s"
| "step cv (CallSetTarget et at) s = setTarget et at s"
| "step cv (CallSendMessage d) s = sendMessage d s"
| "step cv CallSetGroupList s = setGroupList s"
| "step cv CallSetFriendList s = setFriendList s"
| "step cv CallConnect s = connect s"
| "step cv CallCloseConnect s = closeConnect s"
| "step cv CallReConnect s = reConnect s"
| "step cv (CallOn ev l) s = on ev l s"
| "step cv (CallOnce ev l) s = once ev l s"
| "step cv (CallOff ev l) s = off ev l s"
| "step cv (CallEmit ev p) s = emit ev p s"
| "step cv (AssignUin u) s = s\<lparr>uin := u\<rparr>"

definition run :: "(string \<Rightarrow> MessageElem list) \<Rightarrow> env list \<Rightarrow> BaseClient \<Rightarrow> BaseClient" where
  "run cv es s = fold (step cv) es s"

text \<open>The values a call's promise was resolved with, in order.\<close>

definition resolutions :: "nat \<Rightarrow> BaseClient \<Rightarrow> ActionResponse list" where
  "resolutions c s = map snd (filter (\<lambda>r. fst r = c) (resolved s))"

text \<open>The publications of one event name, in order.\<close>

definition publications :: "string \<Rightarrow> BaseClient \<Rightarrow> payload list" where
  "publications ev s = map snd (filter (\<lambda>r. fst r = ev) (published s))"

section \<open>Invariants of the correlation table\<close>

text \<open>The listeners under an identifier: \<^verbatim>\<open>this.apiMap.get( event ) || []\<close>.\<close>

definition entry :: "BaseClient \<Rightarrow> string \<Rightarrow> nat list" where
  "entry s e = (case apiMap s e of Some ls \<Rightarrow> ls | None \<Rightarrow> [])"

text \<open>Call \<open>c\<close> is pending: its listener stands in the table, under its identifier.\<close>

definition pending :: "BaseClient \<Rightarrow> nat \<Rightarrow> bool" where
  "pending s c = (c \<in> set (entry s (idgen s c)))"

text \<open>
  What every state a client can reach satisfies (\<open>wf_new_client\<close>, \<open>wf_run\<close>):
  a listener stands under its own call's identifier, once, and belongs to a call that was
  made; a live timer belongs to a pending call and carries its identifier; no two timers
  share a handle; a pending call has its timer; and \<^verbatim>\<open>resolve\<close> has been called once for
  a call that is no longer pending and never for any other.
\<close>

definition wf :: "BaseClient \<Rightarrow> bool" where
  "wf s =
     ((\<forall>k. distinct (entry s k) \<and>
           (\<forall>c \<in> set (entry s k). c < length (calls s) \<and> idgen s c = k)) \<and>
      (\<forall>t \<in> set (timers s). pending s (tid t) \<and> t_echo t = idgen s (tid t)) \<and>
      distinct (map tid (timers s)) \<and>
      (\<forall>c. pending s c \<longrightarrow> (\<exists>t \<in> set (timers s). tid t = c)) \<and>
      (\<forall>c. length (resolutions c s) = (if c < length (calls s) \<and> \<not> pending s c then 1 else 0)))"

text \<open>\<open>s'\<close> differs from \<open>s\<close> in nothing the correlation of requests rests on.\<close>

definition same_api :: "BaseClient \<Rightarrow> BaseClient \<Rightarrow> bool" where
  "same_api s s' =
     (apiMap s' = apiMap s \<and> timers s' = timers s \<and> idgen s' = idgen s \<and>
      calls s' = calls s \<and> resolved s' = resolved s)"

text \<open>\<open>calm s s'\<close>: from \<open>s\<close> to \<open>s'\<close> the client made calls of \<^verbatim>\<open>fetchApi\<close> and changes
  that leave the correlation alone, and nothing else. This is all that the dispatcher
  and the public surface do; delivering a response and firing a timer are not calm.\<close>

inductive calm :: "BaseClient \<Rightarrow> BaseClient \<Rightarrow> bool" where
  calm_refl: "calm s s"
| calm_fetch: "calm s s' \<Longrightarrow> calm s (snd (fetchApi act p s'))"
| calm_same: "calm s s' \<Longrightarrow> same_api s' s'' \<Longrightarrow> calm s s''"

section \<open>Counting the calls of a listener\<close>

text \<open>How often listener \<open>l\<close> was called for event \<open>ev\<close>.\<close>

definition invocations :: "string \<Rightarrow> nat \<Rightarrow> BaseClient \<Rightarrow> nat" where
  "invocations ev l s = length (filter (\<lambda>r. fst r = ev \<and> fst (snd r) = l) (delivered s))"

text \<open>\<^verbatim>\<open>this.eventMap.get( event ) || []\<close>.\<close>

definition listeners_of :: "BaseClient \<Rightarrow> string \<Rightarrow> EventMapListener list" where
  "listeners_of s ev = (case eventMap s ev of Some ls \<Rightarrow> ls | None \<Rightarrow> [])"

text \<open>How many entries of event \<open>ev\<close> hold listener \<open>l\<close>.\<close>

definition registered :: "string \<Rightarrow> nat \<Rightarrow> BaseClient \<Rightarrow> nat" where
  "registered ev l s = length (filter (\<lambda>item. listener item = l) (listeners_of s ev))"

text \<open>Listener \<open>l\<close> is registered for \<open>ev\<close> by \<^verbatim>\<open>once\<close> only, and its calls so far
  and its entries together are at most one.\<close>

definition once_budget :: "string \<Rightarrow> nat \<Rightarrow> BaseClient \<Rightarrow> bool" where
  "once_budget ev l s =
     ((\<forall>item \<in> set (listeners_of s ev). listener item = l \<longrightarrow> once_flag item) \<and>
      invocations ev l s + registered ev l s \<le> 1)"

section \<open>Sample inputs\<close>

definition gen0 :: "nat \<Rightarrow> string" where
  "gen0 n = replicate (Suc n) CHR ''k''"

definition client0 :: BaseClient where
  "client0 = new_client ''127.0.0.1:5700'' ''127.0.0.1:5701'' 10000 gen0"

text \<open>An identifier source that repeats itself, and two clients that are online: one
  with a window beyond what \<^verbatim>\<open>setTimeout\<close> can wait, one with the repeating source.\<close>

definition gen_same :: "nat \<Rightarrow> string" where
  "gen_same n = ''k''"

definition client_long :: BaseClient where
  "client_long =
     (new_client ''127.0.0.1:5700'' ''127.0.0.1:5701'' 2147483648 gen0)\<lparr>online := True\<rparr>"

definition client_same :: BaseClient where
  "client_same =
     (new_client ''127.0.0.1:5700'' ''127.0.0.1:5701'' 10000 gen_same)\<lparr>online := True\<rparr>"

definition toElems0 :: "string \<Rightarrow> MessageElem list" where
  "toElems0 m = [\<lparr>el_type = ''text'', el_qq = None\<rparr>]"

definition frame0 :: EventData where
  "frame0 =
     \<lparr>has_echo = False, post_type = [], meta_event_type = [], status_online = False,
      sub_type = [], message = MsgElems [], raw_message = [], notice_type = [],
      request_type = [], user_id = 0, group_id = 0, atMe = None, reply = None,
      recall = None, kick = None, ban = None, approve = None\<rparr>"

definition response0 :: ActionResponse where
  "response0 =
     \<lparr>retcode = 0, status = ''ok'', rdata = Some ''{}'', msg = [], wording = [],
      echo = Some ''k''\<rparr>"

section \<open>Properties\<close>

subsection \<open>What the registry leaves alone\<close>

lemma off_fields [simp]:
  "eventTarget (off ev l s) = eventTarget s" "apiTarget (off ev l s) = apiTarget s"
  "fetchTimeout (off ev l s) = fetchTimeout s" "shared_ws (off ev l s) = shared_ws s"
  "uin (off ev l s) = uin s" "online (off ev l s) = online s"
  "apiMap (off ev l s) = apiMap s" "now (off ev l s) = now s"
  "timers (off ev l s) = timers s" "idgen (off ev l s) = idgen s"
  "calls (off ev l s) = calls s" "resolved (off ev l s) = resolved s"
  "wire (off ev l s) = wire s" "published (off ev l s) = published s"
  "delivered (off ev l s) = delivered s"
  by (simp_all add: off_def split: option.splits)

lemma emit_loop_fields [simp]:
  "eventTarget (emit_loop n k ev p s) = eventTarget s"
  "apiTarget (emit_loop n k ev p s) = apiTarget s"
  "fetchTimeout (emit_loop n k ev p s) = fetchTimeout s"
  "shared_ws (emit_loop n k ev p s) = shared_ws s"
  "uin (emit_loop n k ev p s) = uin s" "online (emit_loop n k ev p s) = online s"
  "apiMap (emit_loop n k ev p s) = apiMap s" "now (emit_loop n k ev p s) = now s"
  "timers (emit_loop n k ev p s) = timers s" "idgen (emit_loop n k ev p s) = idgen s"
  "calls (emit_loop n k ev p s) = calls s" "resolved (emit_loop n k ev p s) = resolved s"
  "wire (emit_loop n k ev p s) = wire s" "published (emit_loop n k ev p s) = published s"
  by (induction n arbitrary: k s; simp add: invoke_def Let_def split: option.splits)+

lemma emit_fields [simp]:
  "eventTarget (emit ev p s) = eventTarget s" "apiTarget (emit ev p s) = apiTarget s"
  "fetchTimeout (emit ev p s) = fetchTimeout s" "shared_ws (emit ev p s) = shared_ws s"
  "uin (emit ev p s) = uin s" "online (emit ev p s) = online s"
  "apiMap (emit ev p s) = apiMap s" "now (emit ev p s) = now s"
  "timers (emit ev p s) = timers s" "idgen (emit ev p s) = idgen s"
  "calls (emit ev p s) = calls s" "resolved (emit ev p s) = resolved s"
  "wire (emit ev p s) = wire s"
  "published (emit ev p s) = published s @ [(ev, p)]"
  by (simp_all add: emit_def Let_def split: option.splits)

subsection \<open>Requests\<close>

lemma fetchApi_offline_eq:
  "\<not> online s \<Longrightarrow>
   fetchApi act p s =
     (length (calls s),
      s\<lparr>calls := calls s @ [act],
        resolved := resolved s @ [(length (calls s), not_login_response (idgen s (length (calls s))))]\<rparr>)"
  by (simp add: fetchApi_def Let_def)

lemma fetchApi_online_eq:
  "online s \<Longrightarrow>
   fetchApi act p s =
     (length (calls s),
      s\<lparr>calls := calls s @ [act],
        wire := wire s @ [SendMessage (wsApi s)
                  \<lparr>action = act, params = params_or_empty p, req_echo = idgen s (length (calls s))\<rparr>],
        timers := timers s @ [\<lparr>tid = length (calls s), due = now s + setTimeout_delay (fetchTimeout s),
                    t_echo = idgen s (length (calls s)), t_action = act\<rparr>],
        apiMap := (apiMap s)(idgen s (length (calls s)) \<mapsto>
                    (case apiMap s (idgen s (length (calls s))) of None \<Rightarrow> [] | Some ls \<Rightarrow> ls)
                      @ [length (calls s)])\<rparr>)"
  by (simp add: fetchApi_def Let_def sendMessage_def onApi_def wsApi_def split: option.splits)

lemma fetchApi_fields [simp]:
  "eventTarget (snd (fetchApi act p s)) = eventTarget s"
  "apiTarget (snd (fetchApi act p s)) = apiTarget s"
  "fetchTimeout (snd (fetchApi act p s)) = fetchTimeout s"
  "shared_ws (snd (fetchApi act p s)) = shared_ws s"
  "uin (snd (fetchApi act p s)) = uin s" "online (snd (fetchApi act p s)) = online s"
  "eventMap (snd (fetchApi act p s)) = eventMap s" "now (snd (fetchApi act p s)) = now s"
  "idgen (snd (fetchApi act p s)) = idgen s"
  "calls (snd (fetchApi act p s)) = calls s @ [act]"
  "published (snd (fetchApi act p s)) = published s"
  "delivered (snd (fetchApi act p s)) = delivered s"
  by (cases "online s"; simp add: fetchApi_offline_eq fetchApi_online_eq)+

lemmas refresh_defs = getVersionInfo_def setGroupList_def setFriendList_def

text \<open>
  Claim C2. A call of \<^verbatim>\<open>fetchApi\<close> while the online flag is false returns a promise that
  is already resolved, with the failed response of code 401 and message \<^verbatim>\<open>Not_Login\<close>;
  nothing is written to a socket, the correlation table is as it was and no timer is
  started.
\<close>

theorem fetchApi_offline:
  assumes "\<not> online s"
  shows "let (c, s') = fetchApi act p s; r = not_login_response (idgen s c) in
           c = length (calls s) \<and> resolved s' = resolved s @ [(c, r)] \<and>
           retcode r = 401 \<and> status r = ''failed'' \<and> msg r = ''Not_Login'' \<and>
           wire s' = wire s \<and> apiMap s' = apiMap s \<and> timers s' = timers s"
  using assms by (simp add: fetchApi_offline_eq not_login_response_def)

theorem fetchApi_offline_witness:
  "\<not> online client0 \<and>
   fetchApi ''get_status'' Undefined client0 =
     (0, client0\<lparr>calls := [''get_status''], resolved := [(0, not_login_response ''k'')]\<rparr>) \<and>
   wire (snd (fetchApi ''get_status'' Undefined client0)) = [] \<and>
   apiMap (snd (fetchApi ''get_status'' Undefined client0)) = Map.empty \<and>
   timers (snd (fetchApi ''get_status'' Undefined client0)) = []" 
  using fetchApi_offline[of client0 "''get_status''" Undefined]
  by (simp add: client0_def new_client_def gen0_def fetchApi_def Let_def)

subsection \<open>The dispatcher\<close>

lemma meta_skip: "post_type d \<noteq> ''meta_event'' \<Longrightarrow> meta_branch d s = s"
  by (simp add: meta_branch_def)

lemma message_skip: "post_type d \<noteq> ''message'' \<Longrightarrow> message_branch cv d s = (d, s)"
  by (simp add: message_branch_def)

lemma notice_skip: "post_type d \<noteq> ''notice'' \<Longrightarrow> notice_branch d s = s"
  by (simp add: notice_branch_def)

lemma request_skip: "post_type d \<noteq> ''request'' \<Longrightarrow> request_branch d s = (d, s)"
  by (simp add: request_branch_def)

lemma dispatch_meta: "post_type d = ''meta_event'' \<Longrightarrow> dispatch cv d s = (d, meta_branch d s)"
  by (simp add: dispatch_def meta_skip message_skip notice_skip request_skip)

lemma dispatch_notice: "post_type d = ''notice'' \<Longrightarrow> dispatch cv d s = (d, notice_branch d s)"
  by (simp add: dispatch_def meta_skip message_skip notice_skip request_skip)

lemma dispatch_message:
  "post_type d = ''message'' \<Longrightarrow> dispatch cv d s = message_branch cv d s"
proof -
  assume a: "post_type d = ''message''"
  obtain d2 s2 where m: "message_branch cv d s = (d2, s2)" by (cases "message_branch cv d s")
  have "post_type d2 = ''message''"
    using m a by (auto simp: message_branch_def message_private_def message_group_def Let_def
        split: prod.splits if_splits message_field.splits)
  then show ?thesis using a m
    by (simp add: dispatch_def meta_skip notice_skip request_skip)
qed

text \<open>
  Claim C4. A heartbeat frame sets the online flag to the flag it carries. From offline
  to online the three refreshes are requested (version, groups, friends, in this order)
  and \<^verbatim>\<open>system.online\<close> is published once; from online to offline
  \<^verbatim>\<open>system.offline\<close> is published once; with no change neither is published. In every
  case \<^verbatim>\<open>system\<close> is published once, last.
\<close>

theorem heartbeat_spec:
  assumes "post_type d = ''meta_event''" and "meta_event_type d = ''heartbeat''"
    and "\<not> has_echo d"
  shows "let s' = on_event_message cv (Json d) s in
     online s' = status_online d \<and>
     (\<not> online s \<and> status_online d \<longrightarrow>
        published s' = published s @ [(''system.online'', Event d), (''system'', Event d)] \<and>
        calls s' = calls s @ [''get_version_info'', ''get_group_list'', ''get_friend_list'']) \<and>
     (online s \<and> \<not> status_online d \<longrightarrow>
        published s' = published s @ [(''system.offline'', Event d), (''system'', Event d)] \<and>
        calls s' = calls s) \<and>
     (online s = status_online d \<longrightarrow>
        published s' = published s @ [(''system'', Event d)] \<and> calls s' = calls s) \<and>
     publications ''system.online'' s' =
       publications ''system.online'' s @
         (if \<not> online s \<and> status_online d then [Event d] else []) \<and>
     publications ''system.offline'' s' =
       publications ''system.offline'' s @
         (if online s \<and> \<not> status_online d then [Event d] else []) \<and>
     publications ''system'' s' = publications ''system'' s @ [Event d]"
proof -
  have e: "on_event_message cv (Json d) s = meta_branch d s"
    using assms by (simp add: on_event_message_def dispatch_meta)
  show ?thesis unfolding e Let_def using assms(1,2)
    by (cases "online s"; cases "status_online d";
        simp add: meta_branch_def refresh_defs publications_def)
qed

theorem heartbeat_spec_witness:
  "(let d = frame0\<lparr>post_type := ''meta_event'', meta_event_type := ''heartbeat'', status_online := True\<rparr>;
        s1 = on_event_message toElems0 (Json d) client0;
        s2 = on_event_message toElems0 (Json d) s1;
        s3 = on_event_message toElems0 (Json (d\<lparr>status_online := False\<rparr>)) s2
    in online s1 \<and> published s1 = [(''system.online'', Event d), (''system'', Event d)] \<and>
       calls s1 = [''get_version_info'', ''get_group_list'', ''get_friend_list''] \<and>
       online s2 \<and> published s2 = published s1 @ [(''system'', Event d)] \<and> calls s2 = calls s1 \<and>
       \<not> online s3 \<and>
       published s3 = published s2 @
         [(''system.offline'', Event (d\<lparr>status_online := False\<rparr>)),
          (''system'', Event (d\<lparr>status_online := False\<rparr>))] \<and>
       calls s3 = calls s2)"
proof -
  define d where "d = frame0\<lparr>post_type := ''meta_event'', meta_event_type := ''heartbeat'', status_online := True\<rparr>"
  define s1 where "s1 = on_event_message toElems0 (Json d) client0"
  define s2 where "s2 = on_event_message toElems0 (Json d) s1"
  have d: "post_type d = ''meta_event''" "meta_event_type d = ''heartbeat''" "\<not> has_echo d"
    "status_online d"
    by (simp_all add: d_def frame0_def)
  have d': "post_type (d\<lparr>status_online := False\<rparr>) = ''meta_event''"
    "meta_event_type (d\<lparr>status_online := False\<rparr>) = ''heartbeat''"
    "\<not> has_echo (d\<lparr>status_online := False\<rparr>)"
    by (simp_all add: d_def frame0_def)
  have c0: "\<not> online client0" "published client0 = []" "calls client0 = []"
    by (simp_all add: client0_def new_client_def)
  have 1: "online s1 \<and> published s1 = [(''system.online'', Event d), (''system'', Event d)] \<and>
       calls s1 = [''get_version_info'', ''get_group_list'', ''get_friend_list'']" 
    using heartbeat_spec[OF d(1,2,3), of toElems0 client0] c0 d(4) by (simp add: Let_def s1_def)
  have 2: "online s2 \<and> published s2 = published s1 @ [(''system'', Event d)] \<and> calls s2 = calls s1"
    using heartbeat_spec[OF d(1,2,3), of toElems0 s1] 1 d(4) by (simp add: Let_def s2_def)
  have 3: "\<not> online (on_event_message toElems0 (Json (d\<lparr>status_online := False\<rparr>)) s2) \<and>
       published (on_event_message toElems0 (Json (d\<lparr>status_online := False\<rparr>)) s2) = published s2 @
         [(''system.offline'', Event (d\<lparr>status_online := False\<rparr>)),
          (''system'', Event (d\<lparr>status_online := False\<rparr>))] \<and>
       calls (on_event_message toElems0 (Json (d\<lparr>status_online := False\<rparr>)) s2) = calls s2"
    using heartbeat_spec[OF d', of toElems0 s2] 2 by (simp add: Let_def)
  show ?thesis using 1 2 3 unfolding Let_def d_def[symmetric] s1_def[symmetric] s2_def[symmetric]
    by blast
qed

text \<open>
  Claim C5. A \<^verbatim>\<open>group_increase\<close> notice whose \<^verbatim>\<open>user_id\<close> is the client's own
  publishes \<^verbatim>\<open>notice.group.increase\<close> twice and \<^verbatim>\<open>notice.group.member_increase\<close> never,
  and requests the group list; for any other \<^verbatim>\<open>user_id\<close> it publishes each of the two
  once and requests nothing.
\<close>

theorem group_increase_spec:
  assumes "post_type d = ''notice''" and "notice_type d = ''group_increase''"
    and "\<not> has_echo d"
  shows "let s' = on_event_message cv (Json d) s in
     (user_id d = uin s \<longrightarrow>
        published s' = published s @
          [(''notice.group.increase'', Event d), (''notice.group.increase'', Event d),
           (''notice.group'', Event d), (''notice'', Event d)] \<and>
        calls s' = calls s @ [''get_group_list'']) \<and>
     (user_id d \<noteq> uin s \<longrightarrow>
        published s' = published s @
          [(''notice.group.increase'', Event d), (''notice.group.member_increase'', Event d),
           (''notice.group'', Event d), (''notice'', Event d)] \<and>
        calls s' = calls s) \<and>
     publications ''notice.group.increase'' s' =
       publications ''notice.group.increase'' s @
         (if user_id d = uin s then [Event d, Event d] else [Event d]) \<and>
     publications ''notice.group.member_increase'' s' =
       publications ''notice.group.member_increase'' s @
         (if user_id d = uin s then [] else [Event d])"
proof -
  have e: "on_event_message cv (Json d) s = notice_branch d s"
    using assms by (simp add: on_event_message_def dispatch_notice)
  have g: "notice_group d s = notice_group_increase d s"
    using assms(2) by (simp add: notice_group_def)
  have n: "notice_branch d s =
      emit ''notice'' (Event d) (emit ''notice.group'' (Event d) (notice_group_increase d s))"
    using assms(1,2) by (simp add: notice_branch_def checkNoticePrivateEvent_def g)
  show ?thesis unfolding e n Let_def
    by (cases "user_id d = uin s";
        simp add: notice_group_increase_def refresh_defs publications_def)
qed

theorem group_increase_spec_witness:
  "(let d = frame0\<lparr>post_type := ''notice'', notice_type := ''group_increase''\<rparr>;
        s1 = on_event_message toElems0 (Json d) client0;
        s2 = on_event_message toElems0 (Json (d\<lparr>user_id := 7\<rparr>)) client0
    in user_id d = uin client0 \<and>
       published s1 =
          [(''notice.group.increase'', Event d), (''notice.group.increase'', Event d),
           (''notice.group'', Event d), (''notice'', Event d)] \<and>
       calls s1 = [''get_group_list''] \<and>
       user_id (d\<lparr>user_id := 7\<rparr>) \<noteq> uin client0 \<and>
       published s2 =
          [(''notice.group.increase'', Event (d\<lparr>user_id := 7\<rparr>)),
           (''notice.group.member_increase'', Event (d\<lparr>user_id := 7\<rparr>)),
           (''notice.group'', Event (d\<lparr>user_id := 7\<rparr>)), (''notice'', Event (d\<lparr>user_id := 7\<rparr>))] \<and>
       calls s2 = [])"
  using group_increase_spec[of "frame0\<lparr>post_type := ''notice'', notice_type := ''group_increase''\<rparr>"
      toElems0 client0]
    group_increase_spec[of "frame0\<lparr>post_type := ''notice'', notice_type := ''group_increase'', user_id := 7\<rparr>"
      toElems0 client0]
  by (simp add: Let_def frame0_def client0_def new_client_def)

text \<open>
  Claim C8. A message frame of sub-type \<^verbatim>\<open>normal\<close> is published as
  \<^verbatim>\<open>message.group.normal\<close>, then \<^verbatim>\<open>message.group\<close>, then \<^verbatim>\<open>message\<close>, each time with
  the one payload \<open>d'\<close>, the frame as the dispatcher leaves it, whose \<^verbatim>\<open>reply\<close>,
  \<^verbatim>\<open>recall\<close>, \<^verbatim>\<open>kick\<close> and \<^verbatim>\<open>ban\<close> members are set.
\<close>

theorem group_normal_message_spec:
  assumes "post_type d = ''message''" and "sub_type d = ''normal''" and "\<not> has_echo d"
  shows "let (d', s') = dispatch cv d s in
     on_event_message cv (Json d) s = s' \<and>
     published s' = published s @
       [(''message.group.normal'', Event d'), (''message.group'', Event d'),
        (''message'', Event d')] \<and>
     reply d' = Some ReplyGroup \<and> recall d' = Some RecallOp \<and>
     kick d' = Some KickOp \<and> ban d' = Some BanOp"
proof -
  have p: "message_private d0 s0 = (d0, s0)" if "sub_type d0 = ''normal''" for d0 s0
    using that by (simp add: message_private_def)
  have g: "message_group d0 s0 =
      (d0\<lparr>reply := Some ReplyGroup, recall := Some RecallOp, kick := Some KickOp, ban := Some BanOp\<rparr>,
       emit ''message.group'' (Event (d0\<lparr>reply := Some ReplyGroup, recall := Some RecallOp, kick := Some KickOp, ban := Some BanOp\<rparr>))
        (emit ''message.group.normal'' (Event (d0\<lparr>reply := Some ReplyGroup, recall := Some RecallOp, kick := Some KickOp, ban := Some BanOp\<rparr>)) s0))"
    if "sub_type d0 = ''normal''" for d0 s0
    using that by (simp add: message_group_def Let_def)
  show ?thesis
    using assms
    by (cases "message d"; simp add: on_event_message_def dispatch_message message_branch_def p g Let_def)
qed

theorem group_normal_message_spec_witness:
  "(let d = frame0\<lparr>post_type := ''message'', sub_type := ''normal'', message := MsgString ''hi'',
                   group_id := 1, user_id := 2\<rparr>;
        d' = d\<lparr>message := MsgElems (toElems0 ''hi''), atMe := Some False,
               reply := Some ReplyGroup, recall := Some RecallOp, kick := Some KickOp,
               ban := Some BanOp\<rparr>
    in post_type d = ''message'' \<and> sub_type d = ''normal'' \<and> \<not> has_echo d \<and>
       dispatch toElems0 d client0 = (d', on_event_message toElems0 (Json d) client0) \<and>
       published (on_event_message toElems0 (Json d) client0) =
         [(''message.group.normal'', Event d'), (''message.group'', Event d'),
          (''message'', Event d')])"
proof -
  define d where "d = frame0\<lparr>post_type := ''message'', sub_type := ''normal'',
      message := MsgString ''hi'', group_id := 1, user_id := 2\<rparr>"
  have h: "post_type d = ''message''" "sub_type d = ''normal''" "\<not> has_echo d"
    by (simp_all add: d_def frame0_def)
  have f: "fst (dispatch toElems0 d client0) =
      d\<lparr>message := MsgElems (toElems0 ''hi''), atMe := Some False,
               reply := Some ReplyGroup, recall := Some RecallOp, kick := Some KickOp,
               ban := Some BanOp\<rparr>"
    by (simp add: dispatch_message h message_branch_def message_private_def message_group_def
        Let_def split_beta)
      (simp add: d_def frame0_def toElems0_def client0_def new_client_def)
  show ?thesis
    using group_normal_message_spec[OF h, of toElems0 client0] f h
    unfolding Let_def d_def[symmetric]
    by (cases "dispatch toElems0 d client0") (simp add: client0_def new_client_def)
qed

text \<open>
  Claim C9. When the event socket closes and the flag was true, the flag becomes false
  and \<^verbatim>\<open>system.offline\<close> is published once, with \<^verbatim>\<open>null\<close>; when the flag was false
  nothing changes. In both cases nothing is asked of a socket wrapper (no reconnection),
  no timer is started and no request is made.
\<close>

theorem on_close_spec:
  "(online s \<longrightarrow>
      online (on_close s) = False \<and>
      published (on_close s) = published s @ [(''system.offline'', Null)]) \<and>
   (\<not> online s \<longrightarrow> on_close s = s) \<and>
   publications ''system.offline'' (on_close s) =
     publications ''system.offline'' s @ (if online s then [Null] else []) \<and>
   wire (on_close s) = wire s \<and> timers (on_close s) = timers s \<and> calls (on_close s) = calls s"
  by (simp add: on_close_def publications_def)

theorem on_close_spec_witness:
  "online (client0\<lparr>online := True\<rparr>) \<and>
   online (on_close (client0\<lparr>online := True\<rparr>)) = False \<and>
   published (on_close (client0\<lparr>online := True\<rparr>)) = [(''system.offline'', Null)] \<and>
   \<not> online client0 \<and> on_close client0 = client0"
  using on_close_spec[of "client0\<lparr>online := True\<rparr>"] on_close_spec[of client0]
  by (simp add: client0_def new_client_def)

subsection \<open>The registry\<close>

text \<open>
  What \<^verbatim>\<open>emit\<close> does do. With no once-listener among the listeners of the event, it
  calls every one of them, in the order of registration, and leaves the registry as it is
  (\<open>emit_no_once\<close>). A listener that is registered for the event by one \<^verbatim>\<open>once\<close> and
  in no other way is called at most once by any number of \<^verbatim>\<open>emit\<close>s of the event
  (\<open>once_listener_at_most_once\<close>).
\<close>

lemma emit_loop_no_once:
  assumes "eventMap s ev = Some ls" and "\<forall>item \<in> set ls. \<not> once_flag item"
  shows "emit_loop n k ev p s =
           s\<lparr>delivered := delivered s @ map (\<lambda>item. (ev, listener item, p)) (take n (drop k ls))\<rparr>"
  using assms(1)
proof (induction n arbitrary: k s)
  case 0
  then show ?case by simp
next
  case (Suc n)
  show ?case
  proof (cases "k < length ls")
    case True
    let ?s1 = "invoke ev p (listener (ls ! k)) s"
    have m: "eventMap ?s1 ev = Some ls" using Suc.prems by (simp add: invoke_def)
    have no: "\<not> once_flag (ls ! k)" using assms(2) True by simp
    have d: "take (Suc n) (drop k ls) = ls ! k # take n (drop (Suc k) ls)"
      using True by (simp add: Cons_nth_drop_Suc[symmetric])
    show ?thesis
      using Suc.prems True no Suc.IH[OF m, of "Suc k"]
      by (simp add: Let_def d) (simp add: invoke_def)
  next
    case False
    then have "emit_loop n (Suc k) ev p s = s"
      using Suc.IH[OF Suc.prems, of "Suc k"] by simp
    then show ?thesis using Suc.prems False by simp
  qed
qed

lemma emit_no_once:
  assumes "eventMap s ev = Some ls" and "\<forall>item \<in> set ls. \<not> once_flag item"
  shows "delivered (emit ev p s) = delivered s @ map (\<lambda>item. (ev, listener item, p)) ls"
    and "eventMap (emit ev p s) = eventMap s"
proof -
  let ?s0 = "s\<lparr>published := published s @ [(ev, p)]\<rparr>"
  have "eventMap ?s0 ev = Some ls" using assms(1) by simp
  from emit_loop_no_once[OF this assms(2), of "length ls" 0 p]
  show "delivered (emit ev p s) = delivered s @ map (\<lambda>item. (ev, listener item, p)) ls"
    and "eventMap (emit ev p s) = eventMap s"
    using assms(1) by (simp_all add: emit_def Let_def)
qed

lemma findIndex_Some: "findIndex P xs = Some i \<Longrightarrow> i < length xs \<and> P (xs ! i)"
proof (induction xs arbitrary: i)
  case Nil
  then show ?case by simp
next
  case (Cons x xs)
  then show ?case by (cases "P x") (auto split: option.splits)
qed

lemma findIndex_None: "findIndex P xs = None \<longleftrightarrow> (\<forall>x \<in> set xs. \<not> P x)"
  by (induction xs) (auto split: option.splits)

lemma filter_splice1:
  assumes "i < length xs"
  shows "length (filter Q (splice1 i xs)) + (if Q (xs ! i) then 1 else 0) = length (filter Q xs)"
proof -
  have "xs = take i xs @ xs ! i # drop (Suc i) xs" using assms by (rule id_take_nth_drop)
  then have "filter Q xs = filter Q (take i xs) @ filter Q [xs ! i] @ filter Q (drop (Suc i) xs)"
    by (metis append_Cons append_Nil filter_append)
  then show ?thesis by (simp add: splice1_def)
qed

lemma set_splice1: "set (splice1 i xs) \<subseteq> set xs"
  unfolding splice1_def using set_take_subset[of i xs] set_drop_subset[of "Suc i" xs] by auto

lemma listeners_off:
  "listeners_of (off ev a s) ev =
     (case findIndex (\<lambda>item. listener item = a) (listeners_of s ev) of
        Some i \<Rightarrow> splice1 i (listeners_of s ev) | None \<Rightarrow> listeners_of s ev)"
  by (simp add: off_def listeners_of_def split: option.splits)

lemma off_subset: "set (listeners_of (off ev a s) ev) \<subseteq> set (listeners_of s ev)"
  by (cases "findIndex (\<lambda>item. listener item = a) (listeners_of s ev)")
    (simp_all add: listeners_off set_splice1)

lemma registered_off_other: "a \<noteq> l \<Longrightarrow> registered ev l (off ev a s) = registered ev l s"
proof (cases "findIndex (\<lambda>item. listener item = a) (listeners_of s ev)")
  case None
  then show ?thesis by (simp add: registered_def listeners_off)
next
  case (Some i)
  assume "a \<noteq> l"
  then have "listener (listeners_of s ev ! i) \<noteq> l" using findIndex_Some[OF Some] by simp
  then show ?thesis
    using filter_splice1[of i "listeners_of s ev" "\<lambda>item. listener item = l"] findIndex_Some[OF Some]
    by (simp add: registered_def listeners_off Some)
qed

lemma registered_off_self:
  "0 < registered ev l s \<Longrightarrow> Suc (registered ev l (off ev l s)) = registered ev l s"
proof (cases "findIndex (\<lambda>item. listener item = l) (listeners_of s ev)")
  case None
  assume "0 < registered ev l s"
  then show ?thesis using None by (simp add: registered_def findIndex_None filter_empty_conv)
next
  case (Some i)
  then show ?thesis
    using filter_splice1[of i "listeners_of s ev" "\<lambda>item. listener item = l"] findIndex_Some[OF Some]
    by (simp add: registered_def listeners_off Some)
qed

lemma invocations_off [simp]: "invocations ev l (off ev' a s) = invocations ev l s"
  by (simp add: invocations_def)

lemma invocations_invoke:
  "invocations ev l (invoke ev' p a s) =
     invocations ev l s + (if ev' = ev \<and> a = l then 1 else 0)"
  by (simp add: invocations_def invoke_def)

lemma listeners_invoke [simp]: "listeners_of (invoke ev' p a s) ev = listeners_of s ev"
  by (simp add: listeners_of_def invoke_def)

lemma registered_invoke [simp]: "registered ev l (invoke ev' p a s) = registered ev l s"
  by (simp add: registered_def)

lemma once_budget_visit:
  assumes "once_budget ev l s" and "item \<in> set (listeners_of s ev)"
  shows "once_budget ev l
           (if once_flag item then off ev (listener item) (invoke ev p (listener item) s)
            else invoke ev p (listener item) s)"
proof (cases "listener item = l")
  case True
  then have o: "once_flag item" using assms by (simp add: once_budget_def)
  have "0 < registered ev l s"
    using assms(2) True by (auto simp: registered_def filter_empty_conv)
  then have "Suc (registered ev l (off ev l (invoke ev p l s))) = registered ev l s"
    using registered_off_self[of ev l "invoke ev p l s"] by simp
  moreover have "set (listeners_of (off ev l (invoke ev p l s)) ev) \<subseteq> set (listeners_of s ev)"
    using off_subset[of ev l "invoke ev p l s"] by simp
  ultimately show ?thesis
    using assms(1) True o by (auto simp: once_budget_def invocations_invoke)
next
  case False
  have "set (listeners_of (off ev (listener item) (invoke ev p (listener item) s)) ev)
          \<subseteq> set (listeners_of s ev)"
    using off_subset[of ev "listener item" "invoke ev p (listener item) s"] by simp
  then show ?thesis
    using assms(1) False
    by (auto simp: once_budget_def invocations_invoke registered_off_other)
qed

lemma once_budget_emit_loop: "once_budget ev l s \<Longrightarrow> once_budget ev l (emit_loop n k ev p s)"
proof (induction n arbitrary: k s)
  case 0
  then show ?case by simp
next
  case (Suc n)
  show ?case
  proof (cases "eventMap s ev")
    case None
    then show ?thesis using Suc.prems by simp
  next
    case (Some ls)
    show ?thesis
    proof (cases "k < length ls")
      case True
      then have "ls ! k \<in> set (listeners_of s ev)" using Some by (simp add: listeners_of_def)
      from once_budget_visit[OF Suc.prems this, of p]
      have "once_budget ev l (emit_loop n (Suc k) ev p
              (if once_flag (ls ! k) then off ev (listener (ls ! k)) (invoke ev p (listener (ls ! k)) s)
               else invoke ev p (listener (ls ! k)) s))"
        by (rule Suc.IH)
      then show ?thesis using Some True by (simp add: Let_def)
    next
      case False
      then show ?thesis using Some Suc.IH[OF Suc.prems, of "Suc k"] by simp
    qed
  qed
qed

lemma once_budget_emit: "once_budget ev l s \<Longrightarrow> once_budget ev l (emit ev p s)"
proof -
  assume a: "once_budget ev l s"
  have "once_budget ev l (s\<lparr>published := published s @ [(ev, p)]\<rparr>)"
    using a by (simp add: once_budget_def invocations_def registered_def listeners_of_def)
  then show ?thesis
    by (cases "eventMap s ev") (simp_all add: emit_def Let_def once_budget_emit_loop)
qed

lemma once_budget_once:
  assumes "registered ev l s = 0" and "invocations ev l s = 0"
  shows "once_budget ev l (once ev l s)"
proof -
  have "listeners_of (once ev l s) ev = listeners_of s ev @ [\<lparr>listener = l, once_flag = True\<rparr>]"
    by (simp add: once_def onHandle_def listeners_of_def split: option.splits)
  moreover have "invocations ev l (once ev l s) = invocations ev l s"
    by (simp add: once_def onHandle_def invocations_def split: option.splits)
  ultimately show ?thesis
    using assms by (auto simp: once_budget_def registered_def filter_empty_conv)
qed

lemma once_listener_at_most_once:
  assumes "registered ev l s = 0" and "invocations ev l s = 0"
  shows "invocations ev l (fold (emit ev) ps (once ev l s)) \<le> 1"
proof -
  have "once_budget ev l s' \<Longrightarrow> once_budget ev l (fold (emit ev) ps s')" for s'
    by (induction ps arbitrary: s') (simp_all add: once_budget_emit)
  from this[OF once_budget_once[OF assms]] show ?thesis by (simp add: once_budget_def)
qed

text \<open>
  Claim C6. The claim is that \<^verbatim>\<open>emit\<close> calls every registered listener, also one that
  follows a once-listener. The code does not: with a once-listener 1 and then a listener
  2 registered for an event, one \<^verbatim>\<open>emit\<close> calls 1 only. Removing 1 moves 2 to index 0,
  and the loop goes on at index 1.
\<close>

theorem emit_skips_listener_after_once:
  "(let s = on ''e'' 2 (once ''e'' 1 client0) in
      eventMap s ''e'' =
        Some [\<lparr>listener = 1, once_flag = True\<rparr>, \<lparr>listener = 2, once_flag = False\<rparr>] \<and>
      delivered (emit ''e'' Null s) = [(''e'', 1, Null)] \<and>
      eventMap (emit ''e'' Null s) ''e'' = Some [\<lparr>listener = 2, once_flag = False\<rparr>])"
  by (simp add: Let_def on_def once_def onHandle_def client0_def new_client_def emit_def
      invoke_def off_def splice1_def numeral_2_eq_2)

text \<open>
  Claim C7. The claim is that a once-listener is called exactly once over any number of
  later \<^verbatim>\<open>emit\<close>s. With two once-listeners 1 and 2 registered for an event, the first
  \<^verbatim>\<open>emit\<close> calls 1 and passes over 2: after one \<^verbatim>\<open>emit\<close> listener 2 has not been
  called at all; the second \<^verbatim>\<open>emit\<close> calls it.
\<close>

theorem once_listener_missed_by_emit:
  "(let s = once ''e'' 2 (once ''e'' 1 client0) in
      eventMap s ''e'' =
        Some [\<lparr>listener = 1, once_flag = True\<rparr>, \<lparr>listener = 2, once_flag = True\<rparr>] \<and>
      delivered (emit ''e'' Null s) = [(''e'', 1, Null)] \<and>
      delivered (emit ''e'' Null (emit ''e'' Null s)) = [(''e'', 1, Null), (''e'', 2, Null)])"
  by (simp add: Let_def once_def onHandle_def client0_def new_client_def emit_def
      invoke_def off_def splice1_def numeral_2_eq_2)

subsection \<open>Calm steps\<close>

lemma same_api_refl [simp]: "same_api s s"
  by (simp add: same_api_def)

lemma calm_emit [simp]: "calm s s' \<Longrightarrow> calm s (emit ev p s')"
  by (erule calm_same) (simp add: same_api_def)

lemma calm_fetchApi [simp]: "calm s s' \<Longrightarrow> calm s (snd (fetchApi act p s'))"
  by (rule calm_fetch)

lemma calm_updates [simp]:
  "calm s s' \<Longrightarrow> calm s (s'\<lparr>online := b\<rparr>)"
  "calm s s' \<Longrightarrow> calm s (s'\<lparr>uin := u\<rparr>)"
  "calm s s' \<Longrightarrow> calm s (s'\<lparr>fetchTimeout := ft\<rparr>)"
  "calm s s' \<Longrightarrow> calm s (s'\<lparr>now := n\<rparr>)"
  "calm s s' \<Longrightarrow> calm s (s'\<lparr>wire := w\<rparr>)"
  "calm s s' \<Longrightarrow> calm s (s'\<lparr>eventMap := em\<rparr>)"
  "calm s s' \<Longrightarrow> calm s (s'\<lparr>eventTarget := et\<rparr>)"
  "calm s s' \<Longrightarrow> calm s (s'\<lparr>apiTarget := at\<rparr>)"
  by (erule calm_same, simp add: same_api_def)+

lemma calm_refresh [simp]:
  "calm s s' \<Longrightarrow> calm s (getVersionInfo s')"
  "calm s s' \<Longrightarrow> calm s (setGroupList s')"
  "calm s s' \<Longrightarrow> calm s (setFriendList s')"
  by (simp_all add: refresh_defs)

lemma calm_meta_branch [simp]: "calm s s' \<Longrightarrow> calm s (meta_branch d s')"
  by (simp add: meta_branch_def Let_def)

lemma calm_message_private [simp]: "calm s s' \<Longrightarrow> calm s (snd (message_private d s'))"
  by (simp add: message_private_def Let_def)

lemma calm_message_group [simp]: "calm s s' \<Longrightarrow> calm s (snd (message_group d s'))"
  by (simp add: message_group_def Let_def)

lemma calm_message_branch [simp]: "calm s s' \<Longrightarrow> calm s (snd (message_branch cv d s'))"
  by (simp add: message_branch_def Let_def split_beta)

lemma calm_notice_private [simp]: "calm s s' \<Longrightarrow> calm s (notice_private d s')"
  by (simp add: notice_private_def)

lemma calm_notice_group [simp]: "calm s s' \<Longrightarrow> calm s (notice_group d s')"
  by (simp add: notice_group_def notice_group_increase_def notice_group_decrease_def
      notice_group_notify_def Let_def)

lemma calm_notice_branch [simp]: "calm s s' \<Longrightarrow> calm s (notice_branch d s')"
  by (simp add: notice_branch_def Let_def)

lemma calm_request_branch [simp]: "calm s s' \<Longrightarrow> calm s (snd (request_branch d s'))"
  by (simp add: request_branch_def Let_def split_beta)

lemma calm_dispatch [simp]: "calm s s' \<Longrightarrow> calm s (snd (dispatch cv d s'))"
  by (simp add: dispatch_def Let_def split_beta)

lemma calm_on_event_message: "calm s (on_event_message cv res s)"
  by (cases res) (simp_all add: on_event_message_def calm_refl)

lemma calm_step:
  assumes "\<And>res. e \<noteq> ApiMessage res" and "\<And>t. e \<noteq> ClockReaches t"
  shows "calm s (step cv e s)"
proof (cases e)
  case (EventMessage res)
  then show ?thesis by (simp add: calm_on_event_message)
next
  case (CallOn ev l)
  then show ?thesis
    by (simp add: on_def onHandle_def calm_refl split: option.splits)
next
  case (CallOnce ev l)
  then show ?thesis
    by (simp add: once_def onHandle_def calm_refl split: option.splits)
next
  case (CallOff ev l)
  then show ?thesis
    by (simp add: off_def calm_refl split: option.splits)
qed (use assms in \<open>simp_all add: calm_refl on_close_def setFetchTimeout_def setTarget_def
      sendMessage_def connect_def closeConnect_def reConnect_def Let_def\<close>)

subsection \<open>Invariants along a run\<close>

lemma fold_api_listener:
  "fold (api_listener d) ls s =
     s\<lparr>timers := filter (\<lambda>t. tid t \<notin> set ls) (timers s),
       resolved := resolved s @ map (\<lambda>c. (c, d)) ls\<rparr>"
proof (induction ls arbitrary: s)
  case Nil
  show ?case by simp
next
  case (Cons c ls)
  have "fold (api_listener d) (c # ls) s = fold (api_listener d) ls (api_listener d c s)"
    by simp
  also have "\<dots> = (api_listener d c s)
      \<lparr>timers := filter (\<lambda>t. tid t \<notin> set ls) (timers (api_listener d c s)),
       resolved := resolved (api_listener d c s) @ map (\<lambda>c. (c, d)) ls\<rparr>"
    by (rule Cons.IH)
  also have "\<dots> = s\<lparr>timers := filter (\<lambda>t. tid t \<notin> set (c # ls)) (timers s),
       resolved := resolved s @ map (\<lambda>c. (c, d)) (c # ls)\<rparr>"
    by (simp add: api_listener_def filter_filter)
  finally show ?case .
qed

lemma emitApi_eq:
  "emitApi e d s =
     s\<lparr>timers := filter (\<lambda>t. tid t \<notin> set (entry s e)) (timers s),
       resolved := resolved s @ map (\<lambda>c. (c, d)) (entry s e),
       apiMap := (apiMap s)(e := None)\<rparr>"
  by (simp add: emitApi_def Let_def fold_api_listener entry_def)

lemma earliest_in: "earliest ts = Some tm \<Longrightarrow> tm \<in> set ts"
  by (induction ts arbitrary: tm) (auto split: option.splits if_splits)

lemma earliest_None: "earliest ts = None \<longleftrightarrow> ts = []"
  by (induction ts) (auto split: option.splits)

lemma next_due_Some: "next_due t ts = Some tm \<Longrightarrow> tm \<in> set ts \<and> due tm \<le> t"
  using earliest_in[of "filter (\<lambda>x. due x \<le> t) ts" tm] by (simp add: next_due_def)

lemma next_due_None: "next_due t ts = None \<longleftrightarrow> (\<forall>x \<in> set ts. t < due x)"
  by (auto simp: next_due_def earliest_None filter_empty_conv not_le)

lemma calm_invariant:
  assumes "calm s s'" and "P s"
    and fetch: "\<And>s act p. P s \<Longrightarrow> P (snd (fetchApi act p s))"
    and same: "\<And>s s'. P s \<Longrightarrow> same_api s s' \<Longrightarrow> P s'"
  shows "P s'"
  using assms(1,2) by (induction rule: calm.induct) (auto intro: fetch same)

lemma run_timers_invariant:
  assumes "P s"
    and fire: "\<And>s tm. P s \<Longrightarrow> tm \<in> set (timers s) \<Longrightarrow> due tm \<le> t \<Longrightarrow> P (fire tm s)"
  shows "P (run_timers n t s)"
  using assms(1)
proof (induction n arbitrary: s)
  case 0
  then show ?case by simp
next
  case (Suc n)
  show ?case
  proof (cases "next_due t (timers s)")
    case None
    then show ?thesis using Suc.prems by simp
  next
    case (Some tm)
    then have "P (fire tm s)" using next_due_Some[OF Some] Suc.prems fire by blast
    then have "P (run_timers n t (fire tm s))" by (rule Suc.IH)
    then show ?thesis using Some by simp
  qed
qed

lemma step_invariant:
  assumes "P s"
    and fetch: "\<And>s act p. P s \<Longrightarrow> P (snd (fetchApi act p s))"
    and same: "\<And>s s'. P s \<Longrightarrow> same_api s s' \<Longrightarrow> P s'"
    and api: "\<And>s k d. P s \<Longrightarrow> e = ApiMessage (Json d) \<Longrightarrow> echo d = Some k \<Longrightarrow> k \<noteq> [] \<Longrightarrow>
                retcode d \<noteq> 1 \<Longrightarrow> P (emitApi k d s)"
    and fire: "\<And>s tm t. P s \<Longrightarrow> e = ClockReaches t \<Longrightarrow> tm \<in> set (timers s) \<Longrightarrow>
                due tm \<le> t \<Longrightarrow> P (fire tm s)"
  shows "P (step cv e s)"
proof (cases e)
  case (ApiMessage res)
  then show ?thesis using assms(1) api
    by (cases res) (auto simp: on_api_message_def split: option.splits)
next
  case (ClockReaches t)
  have "P (run_timers (length (timers s)) t s)"
    by (rule run_timers_invariant[where P = P]) (use assms(1) fire ClockReaches in auto)
  then have "P (advance t s)"
    unfolding advance_def Let_def by (rule same) (simp add: same_api_def)
  then show ?thesis using ClockReaches by simp
qed (rule calm_invariant[where P = P and s = s], rule calm_step, simp, simp, rule assms(1),
      erule fetch, erule same, assumption)+

lemma run_invariant:
  assumes "P s"
    and fetch: "\<And>s act p. P s \<Longrightarrow> P (snd (fetchApi act p s))"
    and same: "\<And>s s'. P s \<Longrightarrow> same_api s s' \<Longrightarrow> P s'"
    and api: "\<And>s k d. P s \<Longrightarrow> ApiMessage (Json d) \<in> set es \<Longrightarrow> echo d = Some k \<Longrightarrow> k \<noteq> [] \<Longrightarrow>
                retcode d \<noteq> 1 \<Longrightarrow> P (emitApi k d s)"
    and fire: "\<And>s tm t. P s \<Longrightarrow> ClockReaches t \<in> set es \<Longrightarrow> tm \<in> set (timers s) \<Longrightarrow>
                due tm \<le> t \<Longrightarrow> P (fire tm s)"
  shows "P (run cv es s)"
proof -
  have "set es' \<subseteq> set es \<Longrightarrow> P s \<Longrightarrow> P (fold (step cv) es' s)" for es' s
  proof (induction es' arbitrary: s)
    case Nil
    then show ?case by simp
  next
    case (Cons e es')
    have "P (step cv e s)"
      by (rule step_invariant[where P = P]) (use fetch same api fire Cons.prems in auto)
    moreover have "set es' \<subseteq> set es" using Cons.prems(1) by simp
    ultimately have "P (fold (step cv) es' (step cv e s))" by (rule Cons.IH[rotated])
    then show ?case by simp
  qed
  then show ?thesis using assms(1) by (simp add: run_def)
qed

subsection \<open>The correlation table stays well-formed\<close>

lemma entry_same: "same_api s s' \<Longrightarrow> entry s' k = entry s k"
  by (simp add: same_api_def entry_def)

lemma pending_same: "same_api s s' \<Longrightarrow> pending s' c = pending s c"
  by (simp add: same_api_def pending_def entry_def)

lemma resolutions_same: "same_api s s' \<Longrightarrow> resolutions c s' = resolutions c s"
  by (simp add: same_api_def resolutions_def)

lemma wf_same: "wf s \<Longrightarrow> same_api s s' \<Longrightarrow> wf s'"
  unfolding wf_def
  by (simp add: entry_same pending_same resolutions_same) (simp add: same_api_def)

lemma wf_new_client: "wf (new_client et at ft gen)"
  by (simp add: wf_def new_client_def entry_def pending_def resolutions_def)

lemma entry_fetchApi:
  "entry (snd (fetchApi act p s)) k =
     (if online s \<and> k = idgen s (length (calls s)) then entry s k @ [length (calls s)]
      else entry s k)"
  by (cases "online s")
    (simp_all add: fetchApi_online_eq fetchApi_offline_eq entry_def split: option.splits)

lemma timers_fetchApi:
  "timers (snd (fetchApi act p s)) =
     (if online s
      then timers s @ [\<lparr>tid = length (calls s), due = now s + setTimeout_delay (fetchTimeout s),
                        t_echo = idgen s (length (calls s)), t_action = act\<rparr>]
      else timers s)"
  by (cases "online s") (simp_all add: fetchApi_online_eq fetchApi_offline_eq)

lemma resolutions_fetchApi:
  "resolutions c (snd (fetchApi act p s)) =
     (if \<not> online s \<and> c = length (calls s)
      then resolutions c s @ [not_login_response (idgen s (length (calls s)))]
      else resolutions c s)"
  by (cases "online s")
    (simp_all add: fetchApi_online_eq fetchApi_offline_eq resolutions_def)

lemma wf_old: "wf s \<Longrightarrow> c \<in> set (entry s k) \<Longrightarrow> c < length (calls s) \<and> idgen s c = k"
  by (simp add: wf_def)

lemma wf_pending_old: "wf s \<Longrightarrow> pending s c \<Longrightarrow> c < length (calls s)"
  unfolding pending_def by (drule (1) wf_old) simp

lemma pending_fetchApi:
  assumes "wf s"
  shows "pending (snd (fetchApi act p s)) c =
           (pending s c \<or> (online s \<and> c = length (calls s)))"
proof (cases "c = length (calls s)")
  case True
  then show ?thesis using wf_pending_old[OF assms, of c]
    by (simp add: pending_def entry_fetchApi)
next
  case False
  then show ?thesis by (simp add: pending_def entry_fetchApi)
qed

lemma wf_distinct: "wf s \<Longrightarrow> distinct (entry s k)"
  by (simp add: wf_def)

lemma wf_timer: "wf s \<Longrightarrow> t \<in> set (timers s) \<Longrightarrow> pending s (tid t) \<and> t_echo t = idgen s (tid t)"
  by (simp add: wf_def)

lemma wf_tids: "wf s \<Longrightarrow> distinct (map tid (timers s))"
  by (simp add: wf_def)

lemma wf_live: "wf s \<Longrightarrow> pending s c \<Longrightarrow> \<exists>t \<in> set (timers s). tid t = c"
  by (simp add: wf_def)

lemma wf_count:
  "wf s \<Longrightarrow> length (resolutions c s) = (if c < length (calls s) \<and> \<not> pending s c then 1 else 0)"
  by (simp add: wf_def)

lemma wfI:
  assumes "\<And>k. distinct (entry s k)"
    and "\<And>k c. c \<in> set (entry s k) \<Longrightarrow> c < length (calls s) \<and> idgen s c = k"
    and "\<And>t. t \<in> set (timers s) \<Longrightarrow> pending s (tid t) \<and> t_echo t = idgen s (tid t)"
    and "distinct (map tid (timers s))"
    and "\<And>c. pending s c \<Longrightarrow> \<exists>t \<in> set (timers s). tid t = c"
    and "\<And>c. length (resolutions c s) = (if c < length (calls s) \<and> \<not> pending s c then 1 else 0)"
  shows "wf s"
  unfolding wf_def using assms by blast

lemma wf_fetchApi:
  assumes "wf s"
  shows "wf (snd (fetchApi act p s))"
proof (rule wfI)
  let ?s' = "snd (fetchApi act p s)"
  let ?c0 = "length (calls s)"
  have new: "\<not> pending s ?c0" using wf_pending_old[OF assms, of ?c0] by auto
  have tids: "tid t < ?c0" if "t \<in> set (timers s)" for t
    using wf_timer[OF assms that] wf_pending_old[OF assms] by blast
  show "distinct (entry ?s' k)" for k
    using wf_distinct[OF assms, of k] wf_old[OF assms, of ?c0 k]
    by (auto simp: entry_fetchApi)
  show "c < length (calls ?s') \<and> idgen ?s' c = k" if "c \<in> set (entry ?s' k)" for k c
    using that wf_old[OF assms, of c k]
    by (auto simp: entry_fetchApi split: if_splits)
  show "pending ?s' (tid t) \<and> t_echo t = idgen ?s' (tid t)" if "t \<in> set (timers ?s')" for t
    using that wf_timer[OF assms, of t]
    by (auto simp: timers_fetchApi pending_fetchApi[OF assms] split: if_splits)
  show "distinct (map tid (timers ?s'))"
    using wf_tids[OF assms] tids by (fastforce simp: timers_fetchApi)
  show "\<exists>t \<in> set (timers ?s'). tid t = c" if "pending ?s' c" for c
    using that wf_live[OF assms, of c]
    by (auto simp: timers_fetchApi pending_fetchApi[OF assms])
  show "length (resolutions c ?s') =
          (if c < length (calls ?s') \<and> \<not> pending ?s' c then 1 else 0)" for c
    using wf_count[OF assms, of c] new wf_pending_old[OF assms, of c]
    by (cases "c = ?c0") (auto simp: resolutions_fetchApi pending_fetchApi[OF assms])
qed

lemma entry_emitApi: "entry (emitApi e d s) k = (if k = e then [] else entry s k)"
  by (simp add: emitApi_eq entry_def)

lemma timers_emitApi:
  "timers (emitApi e d s) = filter (\<lambda>t. tid t \<notin> set (entry s e)) (timers s)"
  by (simp add: emitApi_eq)

lemma other_emitApi [simp]:
  "calls (emitApi e d s) = calls s" "idgen (emitApi e d s) = idgen s"
  "online (emitApi e d s) = online s" "now (emitApi e d s) = now s"
  "fetchTimeout (emitApi e d s) = fetchTimeout s" "wire (emitApi e d s) = wire s"
  "published (emitApi e d s) = published s" "delivered (emitApi e d s) = delivered s"
  "eventMap (emitApi e d s) = eventMap s" "uin (emitApi e d s) = uin s"
  by (simp_all add: emitApi_eq)

lemma filter_tagged:
  "distinct ls \<Longrightarrow>
   map snd (filter (\<lambda>r. fst r = c) (map (\<lambda>c'. (c', d)) ls)) = (if c \<in> set ls then [d] else [])"
  by (induction ls) auto

lemma resolutions_emitApi:
  "distinct (entry s e) \<Longrightarrow>
   resolutions c (emitApi e d s) = resolutions c s @ (if c \<in> set (entry s e) then [d] else [])"
  using filter_tagged[of "entry s e" c d] by (simp add: resolutions_def emitApi_eq)

lemma pending_emitApi:
  "pending (emitApi e d s) c = (pending s c \<and> idgen s c \<noteq> e)"
  by (simp add: pending_def entry_emitApi)

lemma wf_emitApi:
  assumes "wf s"
  shows "wf (emitApi e d s)"
proof (rule wfI)
  let ?s' = "emitApi e d s"
  have mem: "c \<in> set (entry s e) \<longleftrightarrow> pending s c \<and> idgen s c = e" for c
    using wf_old[OF assms, of c e] by (auto simp: pending_def)
  show "distinct (entry ?s' k)" for k
    using wf_distinct[OF assms, of k] by (simp add: entry_emitApi)
  show "c < length (calls ?s') \<and> idgen ?s' c = k" if "c \<in> set (entry ?s' k)" for k c
    using that wf_old[OF assms, of c k] by (simp add: entry_emitApi split: if_splits)
  show "pending ?s' (tid t) \<and> t_echo t = idgen ?s' (tid t)" if "t \<in> set (timers ?s')" for t
    using that wf_timer[OF assms, of t] by (auto simp: timers_emitApi pending_emitApi mem)
  show "distinct (map tid (timers ?s'))"
    using wf_tids[OF assms] by (simp add: timers_emitApi distinct_map_filter)
  show "\<exists>t \<in> set (timers ?s'). tid t = c" if "pending ?s' c" for c
    using that wf_live[OF assms, of c] by (auto simp: timers_emitApi pending_emitApi mem)
  show "length (resolutions c ?s') =
          (if c < length (calls ?s') \<and> \<not> pending ?s' c then 1 else 0)" for c
    using wf_count[OF assms, of c] wf_pending_old[OF assms, of c]
    by (auto simp: resolutions_emitApi[OF wf_distinct[OF assms]] pending_emitApi mem)
qed

lemma fire_eq:
  assumes "wf s" and "tm \<in> set (timers s)"
  shows "fire tm s =
     (emitApi (t_echo tm) (timeout_response (t_action tm) (t_echo tm)) s)
       \<lparr>now := max (now s) (due tm)\<rparr>"
proof -
  have "tid tm \<in> set (entry s (t_echo tm))"
    using wf_timer[OF assms] by (simp add: pending_def)
  then have "filter (\<lambda>t. tid t \<notin> set (entry s (t_echo tm)))
               (filter (\<lambda>t. tid t \<noteq> tid tm) (timers s)) =
             filter (\<lambda>t. tid t \<notin> set (entry s (t_echo tm))) (timers s)"
    by (auto simp: filter_filter intro: filter_cong)
  then show ?thesis by (simp add: fire_def emitApi_eq entry_def)
qed

lemma wf_fire: "wf s \<Longrightarrow> tm \<in> set (timers s) \<Longrightarrow> wf (fire tm s)"
  unfolding fire_eq by (rule wf_same[OF wf_emitApi]) (simp_all add: same_api_def)

lemma wf_run: "wf s \<Longrightarrow> wf (run cv es s)"
  by (rule run_invariant[where P = wf]) (auto intro: wf_fetchApi wf_same wf_emitApi wf_fire)

subsection \<open>One call, followed along a run\<close>

lemma timers_fire_less:
  assumes "wf s" and "tm \<in> set (timers s)"
  shows "length (timers (fire tm s)) < length (timers s)"
proof -
  have "tid tm \<in> set (entry s (t_echo tm))"
    using wf_timer[OF assms] by (simp add: pending_def)
  then have "length (filter (\<lambda>t. tid t \<notin> set (entry s (t_echo tm))) (timers s))
               < length (timers s)"
    using length_filter_less[of tm "timers s" "\<lambda>t. tid t \<notin> set (entry s (t_echo tm))"] assms(2)
    by simp
  then show ?thesis
    unfolding fire_eq[OF assms] by (simp add: timers_emitApi)
qed

lemma fire_fields:
  assumes "wf s" and "tm \<in> set (timers s)"
  shows "timers (fire tm s) = filter (\<lambda>t. tid t \<notin> set (entry s (t_echo tm))) (timers s)"
    and "idgen (fire tm s) = idgen s" and "calls (fire tm s) = calls s"
    and "entry (fire tm s) k = (if k = t_echo tm then [] else entry s k)"
    and "pending (fire tm s) c = (pending s c \<and> idgen s c \<noteq> t_echo tm)"
    and "resolutions c (fire tm s) =
           resolutions c s @ (if c \<in> set (entry s (t_echo tm))
                              then [timeout_response (t_action tm) (t_echo tm)] else [])"
proof -
  let ?s' = "emitApi (t_echo tm) (timeout_response (t_action tm) (t_echo tm)) s"
  have sa: "same_api ?s' (fire tm s)" unfolding fire_eq[OF assms] by (simp add: same_api_def)
  show "timers (fire tm s) = filter (\<lambda>t. tid t \<notin> set (entry s (t_echo tm))) (timers s)"
    using sa by (simp add: same_api_def timers_emitApi)
  show "idgen (fire tm s) = idgen s" "calls (fire tm s) = calls s"
    using sa by (simp_all add: same_api_def)
  show "entry (fire tm s) k = (if k = t_echo tm then [] else entry s k)"
    using entry_same[OF sa] by (simp add: entry_emitApi)
  show "pending (fire tm s) c = (pending s c \<and> idgen s c \<noteq> t_echo tm)"
    using pending_same[OF sa] by (simp add: pending_emitApi)
  show "resolutions c (fire tm s) =
           resolutions c s @ (if c \<in> set (entry s (t_echo tm))
                              then [timeout_response (t_action tm) (t_echo tm)] else [])"
    using resolutions_same[OF sa] by (simp add: resolutions_emitApi[OF wf_distinct[OF assms(1)]])
qed

lemma run_timers_done:
  "wf s \<Longrightarrow> length (timers s) \<le> n \<Longrightarrow> x \<in> set (timers (run_timers n t s)) \<Longrightarrow> t < due x"
proof (induction n arbitrary: s)
  case 0
  then show ?case by simp
next
  case (Suc n)
  show ?case
  proof (cases "next_due t (timers s)")
    case None
    then have "\<forall>x \<in> set (timers s). t < due x" by (simp add: next_due_None)
    then show ?thesis using None Suc.prems(3) by simp
  next
    case (Some tm)
    then have tm: "tm \<in> set (timers s)" by (simp add: next_due_Some)
    have "wf (fire tm s)" using Suc.prems(1) tm by (rule wf_fire)
    moreover have "length (timers (fire tm s)) \<le> n"
      using timers_fire_less[OF Suc.prems(1) tm] Suc.prems(2) by simp
    moreover have "x \<in> set (timers (run_timers n t (fire tm s)))"
      using Suc.prems(3) Some by simp
    ultimately show ?thesis by (rule Suc.IH)
  qed
qed

lemma advance_done: "wf s \<Longrightarrow> x \<in> set (timers (advance t s)) \<Longrightarrow> t < due x"
  using run_timers_done[of s "length (timers s)" x t] by (simp add: advance_def Let_def)

lemma advance_as_run: "advance t s = run cv [ClockReaches t] s"
  by (simp add: run_def)

lemma run_append: "run cv (es @ es') s = run cv es' (run cv es s)"
  by (simp add: run_def)

text \<open>Tracking one call: its number stays below the number of calls made, the identifier
  source stays, and a live timer with its handle is the timer it started.\<close>

lemma track_run:
  assumes "wf s" and "c < length (calls s)" and "\<forall>t \<in> set (timers s). tid t = c \<longrightarrow> t = tm"
  shows "wf (run cv es s) \<and> idgen (run cv es s) = idgen s \<and> c < length (calls (run cv es s)) \<and>
         (\<forall>t \<in> set (timers (run cv es s)). tid t = c \<longrightarrow> t = tm)"
proof -
  let ?P = "\<lambda>s'. wf s' \<and> idgen s' = idgen s \<and> c < length (calls s') \<and>
                 (\<forall>t \<in> set (timers s'). tid t = c \<longrightarrow> t = tm)"
  have "?P (run cv es s)"
  proof (rule run_invariant[where P = ?P])
    show "?P s" using assms by simp
  next
    fix s' act p assume "?P s'"
    then show "?P (snd (fetchApi act p s'))"
      by (auto simp: wf_fetchApi timers_fetchApi)
  next
    fix s' s'' assume "?P s'" "same_api s' s''"
    then show "?P s''" by (auto simp: wf_same) (simp_all add: same_api_def)
  next
    fix s' k d assume "?P s'"
    then show "?P (emitApi k d s')" by (auto simp: wf_emitApi timers_emitApi)
  next
    fix s' tm' t assume "?P s'" "tm' \<in> set (timers s')"
    then show "?P (fire tm' s')"
      by (auto simp: wf_fire fire_fields)
  qed
  then show ?thesis .
qed

lemma wf_not_pending:
  "wf s \<Longrightarrow> resolutions c s \<noteq> [] \<Longrightarrow> c < length (calls s) \<and> \<not> pending s c"
  using wf_count[of s c] by (auto split: if_splits)

lemma wf_entry_pending: "wf s \<Longrightarrow> c \<in> set (entry s k) \<Longrightarrow> pending s c"
  using wf_old[of s c k] by (simp add: pending_def)

lemma resolved_stays:
  assumes "wf s" and "resolutions c s = [d]"
  shows "resolutions c (run cv es s) = [d]"
proof -
  let ?P = "\<lambda>s'. wf s' \<and> resolutions c s' = [d]"
  have "?P (run cv es s)"
  proof (rule run_invariant[where P = ?P])
    show "?P s" using assms by simp
  next
    fix s' act p assume "?P s'"
    then show "?P (snd (fetchApi act p s'))"
      using wf_not_pending[of s' c] by (auto simp: wf_fetchApi resolutions_fetchApi)
  next
    fix s' s'' assume "?P s'" "same_api s' s''"
    then show "?P s''" by (auto simp: wf_same resolutions_same)
  next
    fix s' k d' assume "?P s'"
    then show "?P (emitApi k d' s')"
      using wf_not_pending[of s' c] wf_entry_pending[of s' c k]
      by (auto simp: wf_emitApi resolutions_emitApi wf_distinct)
  next
    fix s' tm' t assume "?P s'" "tm' \<in> set (timers s')"
    then show "?P (fire tm' s')"
      using wf_not_pending[of s' c] wf_entry_pending[of s' c "t_echo tm'"]
      by (auto simp: wf_fire fire_fields)
  qed
  then show ?thesis by simp
qed

lemma fetchApi_online_start:
  fixes s :: BaseClient and act :: string and p :: api_params
  assumes "wf s" and "online s"
  defines "c \<equiv> length (calls s)"
  defines "s1 \<equiv> snd (fetchApi act p s)"
  defines "tm0 \<equiv> \<lparr>tid = c, due = now s + setTimeout_delay (fetchTimeout s), t_echo = idgen s c, t_action = act\<rparr>"
  shows "wf s1" and "idgen s1 = idgen s" and "c < length (calls s1)" and "pending s1 c"
    and "tm0 \<in> set (timers s1)" and "\<forall>t \<in> set (timers s1). tid t = c \<longrightarrow> t = tm0"
    and "resolutions c s1 = []"
proof -
  show "wf s1" unfolding s1_def using assms(1) by (rule wf_fetchApi)
  show "idgen s1 = idgen s" "c < length (calls s1)" by (simp_all add: s1_def c_def)
  show "pending s1 c" using assms(2) by (simp add: s1_def c_def pending_fetchApi[OF assms(1)])
  show "tm0 \<in> set (timers s1)" using assms(2) by (simp add: s1_def tm0_def c_def timers_fetchApi)
  have "tid t < c" if "t \<in> set (timers s)" for t
    using wf_timer[OF assms(1) that] wf_pending_old[OF assms(1)] unfolding c_def by blast
  then show "\<forall>t \<in> set (timers s1). tid t = c \<longrightarrow> t = tm0"
    using assms(2) by (fastforce simp: s1_def tm0_def c_def timers_fetchApi)
  show "resolutions c s1 = []"
    using wf_count[OF \<open>wf s1\<close>, of c] \<open>pending s1 c\<close> by simp
qed

lemma at_most_once: "wf s \<Longrightarrow> length (resolutions c (run cv es s)) \<le> 1"
  using wf_count[OF wf_run, of s c cv es] by simp

lemma resolved_by_deadline:
  assumes "wf s" and "c < length (calls s)"
    and "\<forall>x \<in> set (timers s). tid x = c \<longrightarrow> x = tm" and "due tm \<le> t"
  shows "length (resolutions c (advance t (run cv es s))) = 1"
proof -
  let ?s2 = "run cv es s"
  let ?s3 = "advance t ?s2"
  have s3: "?s3 = run cv (es @ [ClockReaches t]) s" by (simp add: run_def)
  have tr: "wf ?s3" "c < length (calls ?s3)" "\<forall>x \<in> set (timers ?s3). tid x = c \<longrightarrow> x = tm"
    unfolding s3 using track_run[OF assms(1,2,3), of cv "es @ [ClockReaches t]"] by simp_all
  have wf2: "wf ?s2" using assms(1) by (rule wf_run)
  have "\<not> pending ?s3 c"
  proof
    assume "pending ?s3 c"
    then obtain x where x: "x \<in> set (timers ?s3)" "tid x = c" using wf_live[OF tr(1)] by blast
    then have "x = tm" using tr(3) by blast
    moreover have "t < due x" using wf2 x(1) by (rule advance_done)
    ultimately show False using assms(4) by simp
  qed
  then show ?thesis using wf_count[OF tr(1), of c] tr(2) by simp
qed

lemma resolution_origin:
  assumes "wf s" and "c < length (calls s)" and "resolutions c s = []"
  shows "r \<in> set (resolutions c (run cv es s)) \<Longrightarrow>
           echo r = Some (idgen s c) \<and>
           (ApiMessage (Json r) \<in> set es \<or> (\<exists>a. r = timeout_response a (idgen s c)))"
proof -
  let ?ok = "\<lambda>r. echo r = Some (idgen s c) \<and>
           (ApiMessage (Json r) \<in> set es \<or> (\<exists>a. r = timeout_response a (idgen s c)))"
  let ?P = "\<lambda>s'. wf s' \<and> idgen s' = idgen s \<and> c < length (calls s') \<and>
                 (\<forall>r \<in> set (resolutions c s'). ?ok r)"
  have "?P (run cv es s)"
  proof (rule run_invariant[where P = ?P])
    show "?P s" using assms by simp
  next
    fix s' act p assume "?P s'"
    then show "?P (snd (fetchApi act p s'))"
      by (auto simp: wf_fetchApi resolutions_fetchApi)
  next
    fix s' s'' assume "?P s'" "same_api s' s''"
    then show "?P s''" by (auto simp: wf_same resolutions_same) (simp_all add: same_api_def)
  next
    fix s' k d assume p: "?P s'" and d: "ApiMessage (Json d) \<in> set es" "echo d = Some k"
    have "?ok d" if "c \<in> set (entry s' k)"
      using wf_old[of s' c k] that p d by simp
    then show "?P (emitApi k d s')"
      using p by (auto simp: wf_emitApi resolutions_emitApi wf_distinct)
  next
    fix s' tm' t assume p: "?P s'" and tm: "tm' \<in> set (timers s')"
    have "?ok (timeout_response (t_action tm') (t_echo tm'))" if "c \<in> set (entry s' (t_echo tm'))"
      using wf_old[of s' c "t_echo tm'"] that p by (auto simp: timeout_response_def)
    then show "?P (fire tm' s')"
      using p tm by (auto simp: wf_fire fire_fields)
  qed
  then show "r \<in> set (resolutions c (run cv es s)) \<Longrightarrow> ?ok r" by blast
qed

lemma response_delivered:
  assumes "wf s" and "resolutions c s = []" and "c < length (calls s)"
    and "echo d = Some (idgen s c)" and "idgen s c \<noteq> []" and "retcode d \<noteq> 1"
  defines "s3 \<equiv> on_api_message (Json d) s"
  shows "wf s3" and "apiMap s3 (idgen s c) = None" and "\<forall>t \<in> set (timers s3). tid t \<noteq> c"
    and "resolutions c s3 = [d]"
proof -
  have s3: "s3 = emitApi (idgen s c) d s"
    using assms(4,5,6) by (simp add: s3_def on_api_message_def)
  have pend: "c \<in> set (entry s (idgen s c))"
    using wf_count[OF assms(1), of c] assms(2,3) by (simp add: pending_def split: if_splits)
  show "wf s3" unfolding s3 using assms(1) by (rule wf_emitApi)
  show "apiMap s3 (idgen s c) = None" unfolding s3 by (simp add: emitApi_eq)
  show "\<forall>t \<in> set (timers s3). tid t \<noteq> c" unfolding s3 using pend by (auto simp: timers_emitApi)
  show "resolutions c s3 = [d]"
    unfolding s3 using pend assms(2) by (simp add: resolutions_emitApi wf_distinct[OF assms(1)])
qed

lemma same_tid:
  "wf s \<Longrightarrow> x \<in> set (timers s) \<Longrightarrow> y \<in> set (timers s) \<Longrightarrow> tid x = tid y \<Longrightarrow> x = y"
  using wf_tids[of s] by (auto simp: distinct_map dest: inj_onD)

lemma other_timer_echo:
  assumes "wf s'" and "idgen s' = g" and "\<forall>c'. c' \<noteq> c \<longrightarrow> g c' \<noteq> g c"
    and "tm0 \<in> set (timers s')" and "tid tm0 = c" and "tm' \<in> set (timers s')" and "tm' \<noteq> tm0"
  shows "t_echo tm' \<noteq> g c"
proof
  assume "t_echo tm' = g c"
  then have "g (tid tm') = g c" using wf_timer[OF assms(1,6)] assms(2) by simp
  then have "tid tm' = c" using assms(3) by blast
  then show False using same_tid[OF assms(1,6,4)] assms(5,7) by simp
qed

lemma survives_emitApi:
  assumes "wf s'" and "pending s' c" and "tm0 \<in> set (timers s')" and "tid tm0 = c"
    and "k \<noteq> idgen s' c"
  shows "pending (emitApi k d s') c" and "tm0 \<in> set (timers (emitApi k d s'))"
  using assms wf_old[of s' c k] by (auto simp: pending_emitApi timers_emitApi)

lemma survives_fire:
  assumes "wf s'" and "pending s' c" and "tm0 \<in> set (timers s')" and "tid tm0 = c"
    and "tm' \<in> set (timers s')" and "t_echo tm' \<noteq> idgen s' c"
  shows "pending (fire tm' s') c" and "tm0 \<in> set (timers (fire tm' s'))"
  using assms wf_old[of s' c "t_echo tm'"] by (auto simp: fire_fields)

lemma timeout_resolution:
  fixes s :: BaseClient and act :: string and p :: api_params
  defines "c \<equiv> length (calls s)"
  defines "s1 \<equiv> snd (fetchApi act p s)"
  assumes "wf s" and "online s"
    and uniq: "\<forall>c'. c' \<noteq> c \<longrightarrow> idgen s c' \<noteq> idgen s c"
    and frames: "\<forall>d. ApiMessage (Json d) \<in> set es \<longrightarrow> echo d = Some (idgen s c) \<longrightarrow> retcode d = 1"
    and clocks: "\<forall>t. ClockReaches t \<in> set es \<longrightarrow> t < now s + setTimeout_delay (fetchTimeout s)"
  shows "resolutions c (run cv es s1) = []"
    and "now s + setTimeout_delay (fetchTimeout s) \<le> t \<Longrightarrow>
         resolutions c (advance t (run cv es s1)) = [timeout_response act (idgen s c)]"
proof -
  define tm0 where
    "tm0 = \<lparr>tid = c, due = now s + setTimeout_delay (fetchTimeout s), t_echo = idgen s c, t_action = act\<rparr>"
  have tm0: "tid tm0 = c" "due tm0 = now s + setTimeout_delay (fetchTimeout s)" "t_echo tm0 = idgen s c"
    "t_action tm0 = act"
    by (simp_all add: tm0_def)
  have start: "wf s1" "idgen s1 = idgen s" "pending s1 c" "tm0 \<in> set (timers s1)"
    unfolding c_def s1_def tm0_def by (rule fetchApi_online_start[OF assms(3,4)])+
  let ?Q = "\<lambda>s'. wf s' \<and> idgen s' = idgen s \<and> pending s' c \<and> tm0 \<in> set (timers s')"
  have Q: "?Q (run cv es s1)"
  proof (rule run_invariant[where P = ?Q])
    show "?Q s1" using start by simp
  next
    fix s' act' p' assume "?Q s'"
    then show "?Q (snd (fetchApi act' p' s'))"
      by (auto simp: wf_fetchApi pending_fetchApi timers_fetchApi)
  next
    fix s' s'' assume "?Q s'" "same_api s' s''"
    then show "?Q s''"
      using wf_same[of s' s''] pending_same[of s' s'' c] by (simp add: same_api_def)
  next
    fix s' k d
    assume q: "?Q s'" and d: "ApiMessage (Json d) \<in> set es" "echo d = Some k" "retcode d \<noteq> 1"
    have "k \<noteq> idgen s' c" using frames d q by auto
    then show "?Q (emitApi k d s')"
      using q survives_emitApi[of s' c tm0 k d] tm0(1) by (simp add: wf_emitApi)
  next
    fix s' tm' t
    assume q: "?Q s'" and t: "ClockReaches t \<in> set es" "tm' \<in> set (timers s')" "due tm' \<le> t"
    have "tm' \<noteq> tm0" using clocks t tm0(2) by auto
    then have "t_echo tm' \<noteq> idgen s' c"
      using other_timer_echo[of s' "idgen s" c tm0 tm'] q uniq t(2) tm0(1) by simp
    then show "?Q (fire tm' s')"
      using q survives_fire[of s' c tm0 tm'] t(2) tm0(1) by (simp add: wf_fire fire_fields)
  qed
  show "resolutions c (run cv es s1) = []"
    using wf_count[of "run cv es s1" c] Q by simp
  show "resolutions c (advance t (run cv es s1)) = [timeout_response act (idgen s c)]"
    if late: "now s + setTimeout_delay (fetchTimeout s) \<le> t"
  proof -
    let ?s2 = "run cv es s1"
    let ?r = "timeout_response act (idgen s c)"
    let ?R = "\<lambda>s'. wf s' \<and> idgen s' = idgen s \<and>
                ((pending s' c \<and> tm0 \<in> set (timers s')) \<or> resolutions c s' = [?r])"
    let ?s3 = "run_timers (length (timers ?s2)) t ?s2"
    have R: "?R ?s3"
    proof (rule run_timers_invariant[where P = ?R])
      show "?R ?s2" using Q by simp
    next
      fix s' tm'
      assume r: "?R s'" and t: "tm' \<in> set (timers s')"
      have w: "wf (fire tm' s')" "idgen (fire tm' s') = idgen s"
        using r t by (simp_all add: wf_fire fire_fields)
      show "?R (fire tm' s')"
      proof (cases "resolutions c s' = [?r]")
        case True
        then have "c \<notin> set (entry s' (t_echo tm'))"
          using wf_not_pending[of s' c] wf_entry_pending[of s' c "t_echo tm'"] r by auto
        then show ?thesis using w True r t by (simp add: fire_fields)
      next
        case False
        then have pt: "pending s' c" "tm0 \<in> set (timers s')" using r by auto
        then have none: "resolutions c s' = []" using wf_count[of s' c] r by simp
        show ?thesis
        proof (cases "tm' = tm0")
          case True
          have "c \<in> set (entry s' (t_echo tm0))" using pt(1) r tm0(3) by (simp add: pending_def)
          then show ?thesis using w r t none True tm0 by (simp add: fire_fields)
        next
          case False
          then have "t_echo tm' \<noteq> idgen s' c"
            using other_timer_echo[of s' "idgen s" c tm0 tm'] r uniq t pt(2) tm0(1) by simp
          then show ?thesis
            using w r pt survives_fire[of s' c tm0 tm'] t tm0(1) by simp
        qed
      qed
    qed
    have "tm0 \<notin> set (timers ?s3)"
      using run_timers_done[of ?s2 "length (timers ?s2)" tm0 t] Q late tm0(2) by auto
    then have "resolutions c ?s3 = [?r]" using R by auto
    then show ?thesis by (simp add: advance_def Let_def resolutions_def)
  qed
qed

subsection \<open>Sample states\<close>

lemma wf_client0_online: "wf (client0\<lparr>online := True\<rparr>)"
  unfolding client0_def by (rule wf_same[OF wf_new_client]) (simp add: same_api_def)

lemma client0_online_facts:
  "online (client0\<lparr>online := True\<rparr>)"
  "length (calls (client0\<lparr>online := True\<rparr>)) = 0"
  "idgen (client0\<lparr>online := True\<rparr>) = gen0"
  "now (client0\<lparr>online := True\<rparr>) +
     setTimeout_delay (fetchTimeout (client0\<lparr>online := True\<rparr>)) = 10000"
  by (simp_all add: client0_def new_client_def setTimeout_delay_def)

lemma gen0_unique: "c' \<noteq> 0 \<Longrightarrow> gen0 c' \<noteq> gen0 0"
proof
  assume "c' \<noteq> 0" and "gen0 c' = gen0 0"
  then have "length (gen0 c') = length (gen0 0)" by simp
  then show False using \<open>c' \<noteq> 0\<close> by (simp add: gen0_def)
qed

lemma gen0_0: "gen0 0 = ''k''"
  by (simp add: gen0_def)

lemma setTimeout_delay_le: "1 \<le> ms \<Longrightarrow> setTimeout_delay ms \<le> nat ms"
  by (auto simp: setTimeout_delay_def)

lemma setTimeout_delay_in_range:
  "1 \<le> ms \<Longrightarrow> ms \<le> 2147483647 \<Longrightarrow> setTimeout_delay ms = nat ms"
  by (simp add: setTimeout_delay_def)

subsection \<open>Every call is resolved once\<close>

text \<open>
  Claim C1. Let a call of \<^verbatim>\<open>fetchApi\<close> be made while the client is online, in a state
  the client can reach. Its promise is pending when \<^verbatim>\<open>fetchApi\<close> returns. Whatever
  happens afterwards (frames on either socket, the clock, further calls of the public
  surface, in any order and number), \<^verbatim>\<open>resolve\<close> is called at most once for it; it has
  been called exactly once by the time the clock has passed the call's window (the delay
  \<^verbatim>\<open>setTimeout\<close> waits for \<^verbatim>\<open>fetchTimeout\<close>, which is at most \<^verbatim>\<open>fetchTimeout\<close> itself when
  that is 1 ms or more); every
  value it is resolved with bears the call's identifier and is either a frame that came
  in on the API socket or a synthesized timeout response. When a response with the
  identifier is delivered while the call is pending, the entry is removed from the
  table and the timer is cleared, and the call stays resolved with that response, once,
  through all that follows: a later expiry or a second frame does not resolve it again.
\<close>

theorem fetchApi_resolves_once:
  assumes "wf s" and "online s"
  shows "let c = length (calls s); e = idgen s c; s1 = snd (fetchApi act p s) in
     fst (fetchApi act p s) = c \<and> resolutions c s1 = [] \<and>
     (\<forall>es. length (resolutions c (run cv es s1)) \<le> 1) \<and>
     (\<forall>es t. now s + setTimeout_delay (fetchTimeout s) \<le> t \<longrightarrow>
        length (resolutions c (advance t (run cv es s1))) = 1) \<and>
     (\<forall>es r. r \<in> set (resolutions c (run cv es s1)) \<longrightarrow>
        echo r = Some e \<and>
        (ApiMessage (Json r) \<in> set es \<or> (\<exists>a. r = timeout_response a e))) \<and>
     (\<forall>es d es'. resolutions c (run cv es s1) = [] \<and> echo d = Some e \<and> e \<noteq> [] \<and>
        retcode d \<noteq> 1 \<longrightarrow>
        (let s3 = on_api_message (Json d) (run cv es s1) in
           apiMap s3 e = None \<and> (\<forall>t \<in> set (timers s3). tid t \<noteq> c) \<and>
           resolutions c (run cv es' s3) = [d])) \<and>
     (1 \<le> fetchTimeout s \<longrightarrow>
        (\<forall>es t. now s + nat (fetchTimeout s) \<le> t \<longrightarrow>
           length (resolutions c (advance t (run cv es s1))) = 1))"
proof -
  define c where "c = length (calls s)"
  define s1 where "s1 = snd (fetchApi act p s)"
  define tm0 where
    "tm0 = \<lparr>tid = c, due = now s + setTimeout_delay (fetchTimeout s), t_echo = idgen s c, t_action = act\<rparr>"
  have start: "wf s1" "idgen s1 = idgen s" "c < length (calls s1)" "pending s1 c"
    "tm0 \<in> set (timers s1)" "\<forall>t \<in> set (timers s1). tid t = c \<longrightarrow> t = tm0"
    "resolutions c s1 = []"
    unfolding c_def s1_def tm0_def by (rule fetchApi_online_start[OF assms])+
  have 1: "fst (fetchApi act p s) = c"
    using assms(2) by (simp add: c_def fetchApi_online_eq)
  have 2: "length (resolutions c (run cv es s1)) \<le> 1" for es
    using start(1) by (rule at_most_once)
  have 3: "length (resolutions c (advance t (run cv es s1))) = 1"
    if "now s + setTimeout_delay (fetchTimeout s) \<le> t" for es t
    by (rule resolved_by_deadline[OF start(1,3,6)]) (use that in \<open>simp add: tm0_def\<close>)
  have 4: "echo r = Some (idgen s c) \<and>
        (ApiMessage (Json r) \<in> set es \<or> (\<exists>a. r = timeout_response a (idgen s c)))"
    if "r \<in> set (resolutions c (run cv es s1))" for es r
    using resolution_origin[OF start(1,3,7) that] start(2) by simp
  have 5: "apiMap (on_api_message (Json d) (run cv es s1)) (idgen s c) = None \<and>
           (\<forall>t \<in> set (timers (on_api_message (Json d) (run cv es s1))). tid t \<noteq> c) \<and>
           resolutions c (run cv es' (on_api_message (Json d) (run cv es s1))) = [d]"
    if h: "resolutions c (run cv es s1) = []" "echo d = Some (idgen s c)" "idgen s c \<noteq> []"
      "retcode d \<noteq> 1" for es d es'
  proof -
    let ?s2 = "run cv es s1"
    have tr: "wf ?s2" "idgen ?s2 = idgen s" "c < length (calls ?s2)"
      using track_run[OF start(1,3,6), of cv es] start(2) by simp_all
    have d: "echo d = Some (idgen ?s2 c)" "idgen ?s2 c \<noteq> []" using h tr(2) by simp_all
    note rd = response_delivered[OF tr(1) h(1) tr(3) d h(4)]
    show ?thesis using rd(2,3) resolved_stays[OF rd(1,4), of cv es'] tr(2) by simp
  qed
  have q2: "\<forall>es. length (resolutions c (run cv es s1)) \<le> 1" using 2 by blast
  have q3: "\<forall>es t. now s + setTimeout_delay (fetchTimeout s) \<le> t \<longrightarrow>
        length (resolutions c (advance t (run cv es s1))) = 1" using 3 by blast
  have q4: "\<forall>es r. r \<in> set (resolutions c (run cv es s1)) \<longrightarrow>
        echo r = Some (idgen s c) \<and>
        (ApiMessage (Json r) \<in> set es \<or> (\<exists>a. r = timeout_response a (idgen s c)))"
    using 4 by blast
  have q5: "\<forall>es d es'. resolutions c (run cv es s1) = [] \<and> echo d = Some (idgen s c) \<and>
        idgen s c \<noteq> [] \<and> retcode d \<noteq> 1 \<longrightarrow>
        apiMap (on_api_message (Json d) (run cv es s1)) (idgen s c) = None \<and>
        (\<forall>t \<in> set (timers (on_api_message (Json d) (run cv es s1))). tid t \<noteq> c) \<and>
        resolutions c (run cv es' (on_api_message (Json d) (run cv es s1))) = [d]"
    using 5 by blast
  have q6: "1 \<le> fetchTimeout s \<longrightarrow>
        (\<forall>es t. now s + nat (fetchTimeout s) \<le> t \<longrightarrow>
           length (resolutions c (advance t (run cv es s1))) = 1)"
  proof (intro impI allI)
    fix es t assume "1 \<le> fetchTimeout s" and "now s + nat (fetchTimeout s) \<le> t"
    then have "now s + setTimeout_delay (fetchTimeout s) \<le> t"
      using setTimeout_delay_le[of "fetchTimeout s"] by simp
    then show "length (resolutions c (advance t (run cv es s1))) = 1" by (rule 3)
  qed
  show ?thesis
    unfolding Let_def c_def[symmetric] s1_def[symmetric]
    by (rule conjI[OF 1 conjI[OF start(7) conjI[OF q2 conjI[OF q3 conjI[OF q4 conjI[OF q5 q6]]]]]])
qed

theorem fetchApi_resolves_once_witness:
  "wf (client0\<lparr>online := True\<rparr>) \<and> online (client0\<lparr>online := True\<rparr>) \<and>
   fst (fetchApi ''get_status'' Undefined (client0\<lparr>online := True\<rparr>)) = 0 \<and>
   resolutions 0 (snd (fetchApi ''get_status'' Undefined (client0\<lparr>online := True\<rparr>))) = [] \<and>
   length (resolutions 0
     (advance 10000 (snd (fetchApi ''get_status'' Undefined (client0\<lparr>online := True\<rparr>))))) = 1 \<and>
   resolutions 0
     (run toElems0 [ClockReaches 20000, ApiMessage (Json response0)]
        (on_api_message (Json response0)
           (snd (fetchApi ''get_status'' Undefined (client0\<lparr>online := True\<rparr>))))) = [response0]"
proof -
  let ?s0 = "client0\<lparr>online := True\<rparr>"
  let ?s1 = "snd (fetchApi ''get_status'' Undefined ?s0)"
  note T = fetchApi_resolves_once[OF wf_client0_online client0_online_facts(1),
      of "''get_status''" Undefined toElems0, unfolded Let_def client0_online_facts gen0_0]
  have e: "run toElems0 [] ?s1 = ?s1" by (simp add: run_def)
  have 1: "fst (fetchApi ''get_status'' Undefined ?s0) = 0" using T by (rule conjunct1)
  have 2: "resolutions 0 ?s1 = []" using T[THEN conjunct2] by (rule conjunct1)
  have "length (resolutions 0 (advance 10000 (run toElems0 [] ?s1))) = 1"
    using T[THEN conjunct2, THEN conjunct2, THEN conjunct2, THEN conjunct1, rule_format,
        of 10000 "[]"] by simp
  then have 3: "length (resolutions 0 (advance 10000 ?s1)) = 1" by (simp only: e)
  have "resolutions 0 (run toElems0 [ClockReaches 20000, ApiMessage (Json response0)]
          (on_api_message (Json response0) (run toElems0 [] ?s1))) = [response0]"
    using T[THEN conjunct2, THEN conjunct2, THEN conjunct2, THEN conjunct2, THEN conjunct2,
        THEN conjunct1, rule_format,
        of "[]" response0 "[ClockReaches 20000, ApiMessage (Json response0)]"] 2 e
    by (simp add: response0_def)
  then have 4: "resolutions 0 (run toElems0 [ClockReaches 20000, ApiMessage (Json response0)]
          (on_api_message (Json response0) ?s1)) = [response0]" by (simp only: e)
  show ?thesis using wf_client0_online client0_online_facts(1) 1 2 3 4 by blast
qed

text \<open>
  Claim C3, as stated, says that a call made while online and never answered is resolved
  after exactly the configured window, with a message that names its action. Two runs of
  the code say otherwise. With \<^verbatim>\<open>fetchTimeout\<close> at 2147483648 the timer is started with
  a delay that \<^verbatim>\<open>setTimeout\<close> replaces by 1: the call is resolved when the clock
  reaches 1. With two calls that got the same identifier, the first made at 0 and the
  second at 5, both with a window of 10000, the first call's timer resolves both when the
  clock reaches 10000: the second call is resolved 5 ms early, with a message that names
  the first call's action.
\<close>

theorem fetchApi_timeout_counterexample:
  "online client_long \<and> now client_long = 0 \<and> fetchTimeout client_long = 2147483648 \<and>
   resolutions 0 (advance 1 (snd (fetchApi ''get_status'' Undefined client_long))) =
     [timeout_response ''get_status'' ''k''] \<and>
   online client_same \<and> fetchTimeout client_same = 10000 \<and>
   now (advance 5 (snd (fetchApi ''get_status'' Undefined client_same))) = 5 \<and>
   resolutions 1
     (advance 10000
        (snd (fetchApi ''get_group_list'' Undefined
               (advance 5 (snd (fetchApi ''get_status'' Undefined client_same)))))) =
     [timeout_response ''get_status'' ''k''] \<and>
   msg (timeout_response ''get_status'' ''k'') = ''Action get_status Request_Timeout''"
proof -
  have a: "resolutions 0 (advance 1 (snd (fetchApi ''get_status'' Undefined client_long))) =
     [timeout_response ''get_status'' ''k'']"
    by (simp add: client_long_def new_client_def gen0_def fetchApi_online_eq advance_def
        next_due_def fire_def emitApi_def api_listener_def resolutions_def
        setTimeout_delay_def wsApi_def Let_def)
  have s1: "advance 5 (snd (fetchApi ''get_status'' Undefined client_same)) =
      (snd (fetchApi ''get_status'' Undefined client_same))\<lparr>now := 5\<rparr>"
    by (simp add: client_same_def new_client_def gen_same_def fetchApi_online_eq advance_def
        next_due_def fire_def emitApi_def api_listener_def resolutions_def
        setTimeout_delay_def wsApi_def Let_def)
  have b: "resolutions 1
     (advance 10000
        (snd (fetchApi ''get_group_list'' Undefined
               (advance 5 (snd (fetchApi ''get_status'' Undefined client_same)))))) =
     [timeout_response ''get_status'' ''k'']"
    unfolding s1
    by (simp add: client_same_def new_client_def gen_same_def fetchApi_online_eq advance_def
        next_due_def fire_def emitApi_def api_listener_def resolutions_def
        setTimeout_delay_def wsApi_def Let_def)
  show ?thesis
    using a b s1
    by (simp add: client_long_def client_same_def new_client_def timeout_response_def)
qed

text \<open>
  Claim C3, amended. Let a call of \<^verbatim>\<open>fetchApi\<close> be made while online, with an
  identifier no other call shares, and let no frame with that identifier come in. Its
  window is the delay \<^verbatim>\<open>setTimeout\<close> waits for the value \<^verbatim>\<open>fetchTimeout\<close> had at the
  call: that value when it lies between 1 and 2147483647 (\<open>setTimeout_delay_in_range\<close>),
  and 1 otherwise. As long as the clock has not reached the instant of the call plus the
  window, the call is not resolved, whatever else happens (\<^verbatim>\<open>setFetchTimeout\<close> included);
  once the clock reaches that instant it is resolved with the failed response of code 408
  whose message names the action. \<^verbatim>\<open>setFetchTimeout\<close> leaves the live timers as they are,
  and the next call's timer is due after the delay of the new value.
\<close>

theorem fetchApi_timeout:
  assumes "wf s" and "online s"
    and "\<forall>c'. c' \<noteq> length (calls s) \<longrightarrow> idgen s c' \<noteq> idgen s (length (calls s))"
    and "\<forall>d. ApiMessage (Json d) \<in> set es \<longrightarrow> echo d \<noteq> Some (idgen s (length (calls s)))"
    and "\<forall>t. ClockReaches t \<in> set es \<longrightarrow> t < now s + setTimeout_delay (fetchTimeout s)"
  shows "let c = length (calls s); s1 = snd (fetchApi act p s);
             r = timeout_response act (idgen s c) in
     resolutions c (run cv es s1) = [] \<and>
     (\<forall>t. now s + setTimeout_delay (fetchTimeout s) \<le> t \<longrightarrow> resolutions c (advance t (run cv es s1)) = [r]) \<and>
     retcode r = 408 \<and> status r = ''failed'' \<and> msg r = ''Action '' @ act @ '' Request_Timeout'' \<and>
     (\<forall>ms act' p'. timers (setFetchTimeout ms s1) = timers s1 \<and>
        timers (snd (fetchApi act' p' (setFetchTimeout ms s1))) =
          timers s1 @ [\<lparr>tid = length (calls s1), due = now s1 + setTimeout_delay ms,
                        t_echo = idgen s1 (length (calls s1)), t_action = act'\<rparr>])"
proof -
  have f: "\<forall>d. ApiMessage (Json d) \<in> set es \<longrightarrow> echo d = Some (idgen s (length (calls s))) \<longrightarrow>
             retcode d = 1"
    using assms(4) by blast
  note tr = timeout_resolution[where act = act and p = p and cv = cv, OF assms(1,2,3) f assms(5)]
  have on1: "online (snd (fetchApi act p s))" using assms(2) by simp
  have "timers (setFetchTimeout ms (snd (fetchApi act p s))) = timers (snd (fetchApi act p s)) \<and>
        timers (snd (fetchApi act' p' (setFetchTimeout ms (snd (fetchApi act p s))))) =
          timers (snd (fetchApi act p s)) @
            [\<lparr>tid = length (calls (snd (fetchApi act p s))), due = now (snd (fetchApi act p s)) + setTimeout_delay ms,
              t_echo = idgen (snd (fetchApi act p s)) (length (calls (snd (fetchApi act p s)))),
              t_action = act'\<rparr>]" for ms act' p'
    using on1 by (simp add: timers_fetchApi setFetchTimeout_def)
  then show ?thesis
    unfolding Let_def using tr by (simp add: timeout_response_def)
qed

theorem fetchApi_timeout_witness:
  "wf (client0\<lparr>online := True\<rparr>) \<and> online (client0\<lparr>online := True\<rparr>) \<and>
   resolutions 0
     (run toElems0
        [CallSetFetchTimeout 5, ApiMessage (Json (response0\<lparr>echo := Some ''zz''\<rparr>)),
         ClockReaches 9999]
        (snd (fetchApi ''get_status'' Undefined (client0\<lparr>online := True\<rparr>)))) = [] \<and>
   resolutions 0
     (advance 10000
       (run toElems0
        [CallSetFetchTimeout 5, ApiMessage (Json (response0\<lparr>echo := Some ''zz''\<rparr>)),
         ClockReaches 9999]
        (snd (fetchApi ''get_status'' Undefined (client0\<lparr>online := True\<rparr>))))) =
     [timeout_response ''get_status'' ''k''] \<and>
   msg (timeout_response ''get_status'' ''k'') = ''Action get_status Request_Timeout''"
proof -
  let ?s0 = "client0\<lparr>online := True\<rparr>"
  let ?es = "[CallSetFetchTimeout 5, ApiMessage (Json (response0\<lparr>echo := Some ''zz''\<rparr>)),
         ClockReaches 9999]"
  have u: "\<forall>c'. c' \<noteq> length (calls ?s0) \<longrightarrow> idgen ?s0 c' \<noteq> idgen ?s0 (length (calls ?s0))"
    using gen0_unique by (simp add: client0_def new_client_def)
  have f: "\<forall>d. ApiMessage (Json d) \<in> set ?es \<longrightarrow> echo d \<noteq> Some (idgen ?s0 (length (calls ?s0)))"
    by (simp add: client0_def new_client_def gen0_def)
  have c: "\<forall>t. ClockReaches t \<in> set ?es \<longrightarrow> t < now ?s0 + setTimeout_delay (fetchTimeout ?s0)"
    by (simp add: client0_def new_client_def setTimeout_delay_def)
  note T = fetchApi_timeout[OF wf_client0_online client0_online_facts(1) u f c,
      of "''get_status''" Undefined toElems0, unfolded Let_def client0_online_facts gen0_0]
  have 1: "resolutions 0 (run toElems0 ?es (snd (fetchApi ''get_status'' Undefined ?s0))) = []"
    using T by (rule conjunct1)
  have 2: "resolutions 0 (advance 10000
       (run toElems0 ?es (snd (fetchApi ''get_status'' Undefined ?s0)))) =
     [timeout_response ''get_status'' ''k'']"
    using T[THEN conjunct2, THEN conjunct1, rule_format, of 10000] by simp
  have 3: "msg (timeout_response ''get_status'' ''k'') = ''Action get_status Request_Timeout''"
    using T[THEN conjunct2, THEN conjunct2, THEN conjunct2, THEN conjunct2, THEN conjunct1]
    by simp
  show ?thesis using wf_client0_online client0_online_facts(1) 1 2 3 by blast
qed

text \<open>
  Claim C10. A frame on the API socket that is JSON, has an identifier and has the
  result code 1 changes nothing: it reaches no pending request. When it bears the
  identifier of a call just made (an identifier no other call shares), the call is still
  unresolved after it, and is resolved by its timer with the timeout response.
\<close>

theorem api_retcode_1_dropped:
  assumes "echo d = Some e" and "retcode d = 1"
  shows "on_api_message (Json d) s = s \<and>
     (wf s \<and> online s \<and> e = idgen s (length (calls s)) \<and>
      (\<forall>c'. c' \<noteq> length (calls s) \<longrightarrow> idgen s c' \<noteq> idgen s (length (calls s))) \<longrightarrow>
      (let c = length (calls s); s1 = on_api_message (Json d) (snd (fetchApi act p s)) in
         resolutions c s1 = [] \<and>
         (\<forall>t. now s + setTimeout_delay (fetchTimeout s) \<le> t \<longrightarrow>
            resolutions c (advance t s1) = [timeout_response act e]) \<and>
         (1 \<le> fetchTimeout s \<longrightarrow>
            (\<forall>t. now s + nat (fetchTimeout s) \<le> t \<longrightarrow>
               resolutions c (advance t s1) = [timeout_response act e]))))"
proof -
  have drop: "on_api_message (Json d) s' = s'" for s'
    using assms by (simp add: on_api_message_def)
  have "resolutions (length (calls s)) (snd (fetchApi act p s)) = [] \<and>
        (\<forall>t. now s + setTimeout_delay (fetchTimeout s) \<le> t \<longrightarrow>
            resolutions (length (calls s)) (advance t (snd (fetchApi act p s))) =
              [timeout_response act e])"
    if h: "wf s" "online s" "e = idgen s (length (calls s))"
      "\<forall>c'. c' \<noteq> length (calls s) \<longrightarrow> idgen s c' \<noteq> idgen s (length (calls s))"
    using timeout_resolution[where es = "[ApiMessage (Json d)]" and act = act and p = p and cv = "\<lambda>m. []",
        OF h(1,2,4)] assms h(3)
    by (simp add: run_def drop)
  moreover have "now s + setTimeout_delay (fetchTimeout s) \<le> t"
    if "1 \<le> fetchTimeout s" "now s + nat (fetchTimeout s) \<le> t" for t
    using that setTimeout_delay_le[of "fetchTimeout s"] by simp
  ultimately show ?thesis by (simp add: drop Let_def)
qed

theorem api_retcode_1_dropped_witness:
  "echo (response0\<lparr>retcode := 1\<rparr>) = Some ''k'' \<and> retcode (response0\<lparr>retcode := 1\<rparr>) = 1 \<and>
   wf (client0\<lparr>online := True\<rparr>) \<and> online (client0\<lparr>online := True\<rparr>) \<and>
   on_api_message (Json (response0\<lparr>retcode := 1\<rparr>))
     (snd (fetchApi ''get_status'' Undefined (client0\<lparr>online := True\<rparr>))) =
   snd (fetchApi ''get_status'' Undefined (client0\<lparr>online := True\<rparr>)) \<and>
   apiMap (snd (fetchApi ''get_status'' Undefined (client0\<lparr>online := True\<rparr>))) ''k'' = Some [0] \<and>
   resolutions 0
     (advance 10000
        (on_api_message (Json (response0\<lparr>retcode := 1\<rparr>))
           (snd (fetchApi ''get_status'' Undefined (client0\<lparr>online := True\<rparr>))))) =
     [timeout_response ''get_status'' ''k'']"
proof -
  let ?s0 = "client0\<lparr>online := True\<rparr>"
  let ?d = "response0\<lparr>retcode := 1\<rparr>"
  let ?s1 = "snd (fetchApi ''get_status'' Undefined ?s0)"
  have d: "echo ?d = Some ''k''" "retcode ?d = 1" by (simp_all add: response0_def)
  have u: "\<forall>c'. c' \<noteq> length (calls ?s0) \<longrightarrow> idgen ?s0 c' \<noteq> idgen ?s0 (length (calls ?s0))"
    using gen0_unique by (simp add: client0_def new_client_def)
  note T1 = api_retcode_1_dropped[OF d, where s = ?s1]
  note T2 = api_retcode_1_dropped[OF d, where s = ?s0 and act = "''get_status''" and p = Undefined,
      THEN conjunct2, rule_format, unfolded Let_def client0_online_facts gen0_0]
  have 1: "on_api_message (Json ?d) ?s1 = ?s1" using T1 by (rule conjunct1)
  have k: "wf ?s0 \<and> online ?s0 \<and> ''k'' = ''k'' \<and> (\<forall>c'. c' \<noteq> 0 \<longrightarrow> gen0 c' \<noteq> ''k'')"
    using wf_client0_online client0_online_facts(1) gen0_unique gen0_0 by simp
  have 2: "resolutions 0 (advance 10000 (on_api_message (Json ?d) ?s1)) =
     [timeout_response ''get_status'' ''k'']"
    using T2[OF k, THEN conjunct2, THEN conjunct1, rule_format, of 10000] by simp
  have 3: "apiMap ?s1 ''k'' = Some [0]"
    by (simp add: fetchApi_online_eq client0_def new_client_def gen0_def)
  show ?thesis using d wf_client0_online client0_online_facts(1) 1 2 3 by blast
qed

end
